theory Spec2Isabelle
  imports Main "HOL-Library.Sublist"
begin

section \<open>Batch partition (StreamingService.createBatches)\<close>

text \<open>
  \<^verbatim>\<open>items.slice(a, b)\<close> for array indices \<open>0 \<le> a \<le> b\<close>: the elements from position
  \<open>a\<close> up to, not including, position \<open>b\<close>, cut short at the end of the array.
\<close>

definition slice :: "'a list \<Rightarrow> nat \<Rightarrow> nat \<Rightarrow> 'a list" where
  "slice items a b = take (b - a) (drop a items)"

text \<open>
  The loop \<^verbatim>\<open>for (let i = 0; i < items.length; i += batchSize)\<close> of
  \<open>createBatches\<close>. With \<open>batchSize = 0\<close> the index never advances and the loop does not
  end once it has been entered: that is the value \<open>None\<close>.
\<close>

function createBatches_loop ::
  "'a list \<Rightarrow> nat \<Rightarrow> nat \<Rightarrow> 'a list list \<Rightarrow> 'a list list option" where
  "createBatches_loop items batchSize i batches =
     (if i < length items then
        (if batchSize = 0 then None
         else createBatches_loop items batchSize (i + batchSize)
                (batches @ [slice items i (i + batchSize)]))
      else Some batches)"
  by pat_completeness auto
termination
  by (relation "measure (\<lambda>(items, batchSize, i, batches). length items - i)") auto

declare createBatches_loop.simps [simp del]

definition createBatches :: "'a list \<Rightarrow> nat \<Rightarrow> 'a list list option" where
  "createBatches items batchSize = createBatches_loop items batchSize 0 []"

section \<open>Strings\<close>

text \<open>
  A JavaScript string is modelled as a \<^typ>\<open>string\<close>: a list of code units, each below 256.
  Text outside that range is outside the model. \<open>isSpace\<close> is the class \<^verbatim>\<open>\s\<close> of
  regular expressions, which is also what \<^verbatim>\<open>trim()\<close> strips, restricted to these code
  units: tab, line feed, vertical tab, form feed, carriage return, space and the
  no-break space.
\<close>

definition isSpace :: "char \<Rightarrow> bool" where
  "isSpace c = (of_char c \<in> {9, 10, 11, 12, 13, 32, 160 :: nat})"

text \<open>
  \<^verbatim>\<open>text.split(/\s+/)\<close>: the pieces between the maximal runs of white space. A run at the
  start or at the end of the text leaves an empty piece there, and the empty text splits
  into one empty piece.
\<close>

function split_ws :: "string \<Rightarrow> string list" where
  "split_ws text =
     (let word = takeWhile (\<lambda>c. \<not> isSpace c) text;
          rest = dropWhile (\<lambda>c. \<not> isSpace c) text
      in if rest = [] then [word] else word # split_ws (dropWhile isSpace rest))"
  by pat_completeness auto
termination
proof (relation "measure length")
  fix s :: string and rest
  assume r: "rest = dropWhile (\<lambda>c. \<not> isSpace c) s" and ne: "rest \<noteq> []"
  from ne obtain c cs where cs: "rest = c # cs" by (cases rest) auto
  have "dropWhile (\<lambda>c. \<not> isSpace c) s \<noteq> []"
    using ne unfolding r .
  then have "\<not> \<not> isSpace (hd (dropWhile (\<lambda>c. \<not> isSpace c) s))"
    by (rule hd_dropWhile)
  then have "isSpace (hd rest)" unfolding r by simp
  then have "isSpace c" unfolding cs by simp
  then have "length (dropWhile isSpace rest) \<le> length cs"
    using cs by (simp add: length_dropWhile_le)
  also have "length cs < length rest" using cs by simp
  also have "length rest \<le> length s" using r by (simp add: length_dropWhile_le)
  finally show "(dropWhile isSpace rest, s) \<in> measure length" by simp
qed simp

declare split_ws.simps [simp del]

text \<open>A word without white space.\<close>

definition noSpace :: "string \<Rightarrow> bool" where
  "noSpace w = (\<forall>c \<in> set w. \<not> isSpace c)"

text \<open>\<^verbatim>\<open>words.join(' ')\<close>.\<close>

fun join_sp :: "string list \<Rightarrow> string" where
  "join_sp [] = []"
| "join_sp [w] = w"
| "join_sp (w # v # ws) = w @ CHR '' '' # join_sp (v # ws)"

text \<open>\<^verbatim>\<open>s.trim()\<close>.\<close>

definition trim :: "string \<Rightarrow> string" where
  "trim s = rev (dropWhile isSpace (rev (dropWhile isSpace s)))"

text \<open>\<^verbatim>\<open>text.substring(a, b)\<close> for \<open>0 \<le> a \<le> b\<close>; both ends are clamped to the length.\<close>

definition substring :: "string \<Rightarrow> nat \<Rightarrow> nat \<Rightarrow> string" where
  "substring text a b = take (b - a) (drop a text)"

text \<open>\<^verbatim>\<open>text[i]\<close>: the code unit at \<open>i\<close>, \<^verbatim>\<open>undefined\<close> (here \<open>None\<close>) out of range.\<close>

definition charAt :: "string \<Rightarrow> nat \<Rightarrow> char option" where
  "charAt text i = (if i < length text then Some (text ! i) else None)"

section \<open>Access-tier truncation\<close>

text \<open>
  \<^verbatim>\<open>Math.floor(n * (percentage / 100))\<close>. The source computes it in double precision. The
  only percentage below 100 that the program passes is 30; for it, and every length a
  string can have, the double result is \<open>3 * n div 10\<close>: when \<open>10\<close> divides \<open>3 * n\<close> the
  product rounds to that integer (the relative error of the double nearest to 0.3 is
  below half a unit in the last place), and otherwise the exact value is at least 0.1
  away from the next integer. For other percentages the definition is the exact floor,
  which the double computation may miss; nothing below depends on them.
\<close>

definition floorPercent :: "nat \<Rightarrow> nat \<Rightarrow> nat" where
  "floorPercent n percentage = n * percentage div 100"

text \<open>
  \<open>StreamingService.truncateToPercentage\<close>, the word-based truncation applied to every
  snapshot that is broadcast at the partial tier.
\<close>

definition truncateToPercentage :: "string \<Rightarrow> nat \<Rightarrow> string" where
  "truncateToPercentage text percentage =
     (if percentage \<ge> 100 then text
      else
        let words = split_ws text;
            targetLength = floorPercent (length words) percentage;
            truncated = join_sp (take (max 1 targetLength) words)
        in truncated @ (if length truncated < length text then ''...'' else []))"

text \<open>
  \<open>truncateToPercentage\<close> of \<^verbatim>\<open>client/src/utils/user-credits.ts\<close>, the character-based
  truncation of the final display. The inner loop tries the sentence endings in order
  at position \<open>i\<close>; the outer loop walks \<open>i\<close> down from the target, at most 100 positions,
  and stops as soon as the cut point differs from the target.
\<close>

definition sentenceEndings :: "string list" where
  "sentenceEndings =
     [''. '', [CHR ''.'', CHR 0x0A], ''! '', [CHR ''!'', CHR 0x0A], ''? '', [CHR ''?'', CHR 0x0A]]"

fun endingLoop :: "string \<Rightarrow> nat \<Rightarrow> string list \<Rightarrow> nat \<Rightarrow> nat" where
  "endingLoop text i [] cutPoint = cutPoint"
| "endingLoop text i (ending # rest) cutPoint =
     (if substring text i (i + length ending) = ending then i + length ending
      else endingLoop text i rest cutPoint)"

function sentenceLoop :: "string \<Rightarrow> nat \<Rightarrow> nat \<Rightarrow> nat" where
  "sentenceLoop text targetLength i =
     (let cutPoint = endingLoop text i sentenceEndings targetLength
      in if cutPoint \<noteq> targetLength then cutPoint
         else if max 0 (targetLength - 100) < i then sentenceLoop text targetLength (i - 1)
         else cutPoint)"
  by pat_completeness auto
termination
  by (relation "measure (\<lambda>(text, targetLength, i). i)") auto

declare sentenceLoop.simps [simp del]

text \<open>\<^verbatim>\<open>while (cutPoint > 0 && text[cutPoint] !== ' ') cutPoint--\<close>.\<close>

fun wordBoundary :: "string \<Rightarrow> nat \<Rightarrow> nat" where
  "wordBoundary text 0 = 0"
| "wordBoundary text (Suc n) =
     (if charAt text (Suc n) \<noteq> Some CHR '' '' then wordBoundary text n else Suc n)"

definition cutPointFor :: "string \<Rightarrow> nat \<Rightarrow> nat" where
  "cutPointFor text targetLength =
     (let cutPoint = sentenceLoop text targetLength targetLength
      in if cutPoint = targetLength then wordBoundary text cutPoint else cutPoint)"

definition truncateToPercentage_client :: "string \<Rightarrow> nat \<Rightarrow> string" where
  "truncateToPercentage_client text percentage =
     (if percentage \<ge> 100 then text
      else trim (substring text 0 (cutPointFor text (floorPercent (length text) percentage))))"

section \<open>Storage: users, credits and analysis jobs\<close>

text \<open>
  The rows of the \<open>users\<close> and \<open>analyses\<close> tables, with the columns the orchestrator
  reads or writes. A column that may be \<^verbatim>\<open>null\<close> is an option. The text, the context and
  the provider of a job only reach the provider request, whose answer is a parameter of
  the model (\<open>llmOutcome\<close> below), and the time stamps written beside each update are wall
  clock readings; they are left out.
\<close>

record User =
  username :: string
  credits :: "int option"

datatype results =
    FinalResults string "string list" "string list" string
  | ErrorResults string string

record Analysis =
  type :: string
  userId :: "nat option"
  status :: string
  results :: "results option"

text \<open>
  \<^verbatim>\<open>s.toLowerCase()\<close> on code units below 256: the letters A to Z and the upper-case
  letters of Latin-1 move up by 32.
\<close>

definition toLowerCase_char :: "char \<Rightarrow> char" where
  "toLowerCase_char c =
     (let n = of_char c :: nat
      in if (65 \<le> n \<and> n \<le> 90) \<or> (192 \<le> n \<and> n \<le> 222 \<and> n \<noteq> 215)
         then char_of (n + 32) else c)"

definition toLowerCase :: "string \<Rightarrow> string" where
  "toLowerCase s = map toLowerCase_char s"

text \<open>The designated unlimited identity: \<^verbatim>\<open>user.username.toLowerCase() === 'jmkuczynski'\<close>.\<close>

definition isAdmin :: "User \<Rightarrow> bool" where
  "isAdmin user = (toLowerCase (username user) = ''jmkuczynski'')"

text \<open>\<^verbatim>\<open>user.credits || 0\<close>: a \<^verbatim>\<open>null\<close> balance reads as 0.\<close>

definition creditsOr0 :: "User \<Rightarrow> int" where
  "creditsOr0 user = (case credits user of None \<Rightarrow> 0 | Some c \<Rightarrow> c)"

text \<open>
  \<open>DatabaseStorage.updateUserCredits\<close>: an \<^verbatim>\<open>UPDATE ... WHERE id = userId\<close>, which
  changes nothing when no row has that id.
\<close>

definition updateUserCredits :: "nat \<Rightarrow> int \<Rightarrow> (nat \<rightharpoonup> User) \<Rightarrow> (nat \<rightharpoonup> User)" where
  "updateUserCredits uid c us =
     (case us uid of None \<Rightarrow> us | Some user \<Rightarrow> us(uid \<mapsto> user\<lparr>credits := Some c\<rparr>))"

text \<open>\<open>DatabaseStorage.consumeUserCredits\<close>; \<open>Inl\<close> is the thrown error's message.\<close>

definition consumeUserCredits ::
  "nat \<Rightarrow> int \<Rightarrow> (nat \<rightharpoonup> User) \<Rightarrow> string + (nat \<rightharpoonup> User)" where
  "consumeUserCredits uid creditsUsed us =
     (case us uid of
        None \<Rightarrow> Inl ''User not found''
      | Some user \<Rightarrow>
          if isAdmin user then Inr us
          else Inr (updateUserCredits uid (max 0 (creditsOr0 user - creditsUsed)) us))"

text \<open>\<open>DatabaseStorage.checkUserCredits\<close>.\<close>

definition checkUserCredits :: "nat \<Rightarrow> int \<Rightarrow> (nat \<rightharpoonup> User) \<Rightarrow> bool" where
  "checkUserCredits uid requiredCredits us =
     (case us uid of
        None \<Rightarrow> False
      | Some user \<Rightarrow> if isAdmin user then True else creditsOr0 user \<ge> requiredCredits)"

text \<open>
  \<open>StreamingService.getRequiredCredits\<close>: the cost table, and 2000 for a kind that is
  not in it. (The table is a JavaScript object literal, so a kind named like a property
  every object inherits, such as \<^verbatim>\<open>toString\<close>, would not read as a number; the nine
  analysis kinds are listed in \<open>analysisKinds\<close>.)
\<close>

definition getRequiredCredits :: "string \<Rightarrow> int" where
  "getRequiredCredits analysisType =
     (if analysisType = ''cognitive'' then 2000
      else if analysisType = ''comprehensive-cognitive'' then 5000
      else if analysisType = ''microcognitive'' then 500
      else if analysisType = ''psychological'' then 1500
      else if analysisType = ''comprehensive-psychological'' then 4000
      else if analysisType = ''micropsychological'' then 400
      else if analysisType = ''psychopathological'' then 1500
      else if analysisType = ''comprehensive-psychopathological'' then 4000
      else if analysisType = ''micropsychopathological'' then 400
      else 2000)"

definition analysisKinds :: "string list" where
  "analysisKinds =
     [''cognitive'', ''comprehensive-cognitive'', ''microcognitive'',
      ''psychological'', ''comprehensive-psychological'', ''micropsychological'',
      ''psychopathological'', ''comprehensive-psychopathological'',
      ''micropsychopathological'']"

section \<open>The broadcast registry\<close>

text \<open>
  A subscriber callback is known by its identity only; calling it is recorded in the
  log \<open>delivered\<close>, in the order of the calls. The callbacks of a channel are a
  JavaScript \<^verbatim>\<open>Set\<close>: no duplicates, visited in insertion order. An exception of a
  callback is caught inside \<open>broadcastToStream\<close> and changes nothing.
\<close>

type_synonym job_id = string
type_synonym callback = nat

datatype event =
    EvSummary string
  | EvRawStream nat string
  | EvBatchComplete nat string
  | EvDelay nat
  | EvComplete
  | EvStopped string
  | EvError string

record ActiveStream =
  callbacks :: "callback list"
  isActive :: bool

text \<open>
  The state of the service and its storage. \<open>clock\<close> counts the suspension points
  (\<^verbatim>\<open>await\<close>) passed so far.
\<close>

record state =
  activeStreams :: "job_id \<rightharpoonup> ActiveStream"
  analyses :: "job_id \<rightharpoonup> Analysis"
  users :: "nat \<rightharpoonup> User"
  delivered :: "(callback \<times> event) list"
  clock :: nat

definition broadcastToStream :: "job_id \<Rightarrow> event \<Rightarrow> state \<Rightarrow> state" where
  "broadcastToStream analysisId data s =
     (case activeStreams s analysisId of
        None \<Rightarrow> s
      | Some stream \<Rightarrow>
          if isActive stream
          then s\<lparr>delivered := delivered s @ map (\<lambda>cb. (cb, data)) (callbacks stream)\<rparr>
          else s)"

definition streamAnalysis :: "job_id \<Rightarrow> callback \<Rightarrow> state \<Rightarrow> state" where
  "streamAnalysis analysisId cb s =
     (let stream = (case activeStreams s analysisId of
                      None \<Rightarrow> \<lparr>callbacks = [], isActive = True\<rparr>
                    | Some st \<Rightarrow> st);
          stream' = (if cb \<in> set (callbacks stream) then stream
                     else stream\<lparr>callbacks := callbacks stream @ [cb]\<rparr>)
      in s\<lparr>activeStreams := (activeStreams s)(analysisId \<mapsto> stream')\<rparr>)"

definition stopStreaming :: "job_id \<Rightarrow> state \<Rightarrow> state" where
  "stopStreaming analysisId s =
     (case activeStreams s analysisId of
        None \<Rightarrow> s
      | Some stream \<Rightarrow> s\<lparr>activeStreams := (activeStreams s)(analysisId := None)\<rparr>)"

definition stopAnalysis :: "job_id \<Rightarrow> state \<Rightarrow> state" where
  "stopAnalysis analysisId s =
     (case activeStreams s analysisId of
        None \<Rightarrow> s
      | Some stream \<Rightarrow>
          let s1 = s\<lparr>activeStreams :=
                      (activeStreams s)(analysisId \<mapsto> stream\<lparr>isActive := False\<rparr>)\<rparr>;
              s2 = broadcastToStream analysisId (EvStopped ''Analysis stopped by user'') s1
          in s2\<lparr>activeStreams := (activeStreams s2)(analysisId := None)\<rparr>)"

text \<open>The check \<^verbatim>\<open>!stream || !stream.isActive\<close> of the batch loops, negated.\<close>

definition streamIsActive :: "job_id \<Rightarrow> state \<Rightarrow> bool" where
  "streamIsActive analysisId s =
     (case activeStreams s analysisId of None \<Rightarrow> False | Some stream \<Rightarrow> isActive stream)"

text \<open>The events a subscriber has received, oldest first.\<close>

definition observed :: "callback \<Rightarrow> state \<Rightarrow> event list" where
  "observed cb s = map snd (filter (\<lambda>d. fst d = cb) (delivered s))"

definition isTerminal :: "event \<Rightarrow> bool" where
  "isTerminal e = (case e of EvComplete \<Rightarrow> True | EvStopped m \<Rightarrow> True | EvError m \<Rightarrow> True
                   | _ \<Rightarrow> False)"

section \<open>Suspension points and the environment\<close>

text \<open>
  The service runs on one thread. While a run is suspended at an \<^verbatim>\<open>await\<close>, the HTTP
  routes may call the registry: the stream route subscribes a callback and, when its
  connection closes, calls \<open>stopStreaming\<close>; the delete route calls \<open>stopAnalysis\<close>. An
  environment says which of these calls arrive at which suspension point.
\<close>

datatype ext_action =
    ExtStreamAnalysis job_id callback
  | ExtStopStreaming job_id
  | ExtStopAnalysis job_id

type_synonym env = "nat \<Rightarrow> ext_action list"

fun applyExt :: "ext_action \<Rightarrow> state \<Rightarrow> state" where
  "applyExt (ExtStreamAnalysis j cb) s = streamAnalysis j cb s"
| "applyExt (ExtStopStreaming j) s = stopStreaming j s"
| "applyExt (ExtStopAnalysis j) s = stopAnalysis j s"

definition await :: "env \<Rightarrow> state \<Rightarrow> state" where
  "await env s = (fold applyExt (env (clock s)) s)\<lparr>clock := Suc (clock s)\<rparr>"

text \<open>Storage updates of the orchestrator; each is an \<^verbatim>\<open>UPDATE ... WHERE id = ...\<close>.\<close>

definition updateAnalysisStatus :: "job_id \<Rightarrow> string \<Rightarrow> state \<Rightarrow> state" where
  "updateAnalysisStatus analysisId st s =
     (case analyses s analysisId of
        None \<Rightarrow> s
      | Some a \<Rightarrow> s\<lparr>analyses := (analyses s)(analysisId \<mapsto> a\<lparr>status := st\<rparr>)\<rparr>)"

definition updateAnalysisResults :: "job_id \<Rightarrow> results \<Rightarrow> state \<Rightarrow> state" where
  "updateAnalysisResults analysisId r s =
     (case analyses s analysisId of
        None \<Rightarrow> s
      | Some a \<Rightarrow> s\<lparr>analyses := (analyses s)(analysisId \<mapsto> a\<lparr>results := Some r\<rparr>)\<rparr>)"

section \<open>The orchestrator\<close>

text \<open>
  What one call of \<open>LLMService.streamResponse\<close> does, as the orchestrator sees it: it
  hands the increments \<open>chunks\<close> to \<^verbatim>\<open>onChunk\<close> one by one, suspending before each, and
  then either ends or throws an error with message \<open>failure\<close> (a missing key, an HTTP
  error and an unreadable body are a failure after no increment). The answers of the
  provider are a parameter \<open>llm\<close> of a run: \<open>llm 0\<close> is the summary call and \<open>llm n\<close> the
  call for batch number \<open>n\<close>.
\<close>

record llmOutcome =
  chunks :: "string list"
  failure :: "string option"

text \<open>\<^verbatim>\<open>`${n}`\<close> for a natural number: its decimal digits.\<close>

fun showNat :: "nat \<Rightarrow> string" where
  "showNat n =
     (if n < 10 then [char_of (48 + n)]
      else showNat (n div 10) @ [char_of (48 + n mod 10)])"

declare showNat.simps [simp del]

text \<open>
  The \<^verbatim>\<open>onChunk\<close> callback of \<open>streamSummary\<close>, run over the increments of the call. The
  pair is \<^verbatim>\<open>(summary, hasContent)\<close>.
\<close>

fun summaryChunks ::
  "env \<Rightarrow> job_id \<Rightarrow> bool \<Rightarrow> string list \<Rightarrow> string \<times> bool \<Rightarrow> state
   \<Rightarrow> (string \<times> bool) \<times> state" where
  "summaryChunks env analysisId hasFullAccess [] acc s = (acc, s)"
| "summaryChunks env analysisId hasFullAccess (chunk # rest) (summary, hasContent) s =
     (let s1 = await env s;
          summary' = summary @ chunk;
          displayContent =
            (if hasFullAccess then summary' else truncateToPercentage summary' 30);
          s2 = broadcastToStream analysisId (EvSummary displayContent) s1
      in summaryChunks env analysisId hasFullAccess rest (summary', True) s2)"

definition streamSummary ::
  "env \<Rightarrow> job_id \<Rightarrow> bool \<Rightarrow> llmOutcome \<Rightarrow> state \<Rightarrow> (string + string) \<times> state" where
  "streamSummary env analysisId hasFullAccess out s =
     (case summaryChunks env analysisId hasFullAccess (chunks out) ([], False) s of
        ((summary, hasContent), s1) \<Rightarrow>
          let s2 = await env s1
          in (case failure out of
                Some errorMessage \<Rightarrow>
                  (Inl (''Summary generation failed: '' @ errorMessage), s2)
              | None \<Rightarrow>
                  if \<not> hasContent
                  then (Inl (''Summary generation failed: ''
                          @ ''No content received from LLM during summary generation''), s2)
                  else (Inr summary, s2)))"

text \<open>
  The \<^verbatim>\<open>onChunk\<close> callback of \<open>processBatch\<close> and of \<open>processMicroBatch\<close> (the two are
  the same text). The pair is \<^verbatim>\<open>(fullResponse, hasContent)\<close>.
\<close>

fun batchChunks ::
  "env \<Rightarrow> job_id \<Rightarrow> bool \<Rightarrow> nat \<Rightarrow> string list \<Rightarrow> string \<times> bool \<Rightarrow> state
   \<Rightarrow> (string \<times> bool) \<times> state" where
  "batchChunks env analysisId hasFullAccess batchNumber [] acc s = (acc, s)"
| "batchChunks env analysisId hasFullAccess batchNumber (chunk # rest)
     (fullResponse, hasContent) s =
     (let s1 = await env s;
          fullResponse' = fullResponse @ chunk;
          displayContent =
            (if hasFullAccess then fullResponse' else truncateToPercentage fullResponse' 30);
          s2 = broadcastToStream analysisId (EvRawStream batchNumber displayContent) s1
      in batchChunks env analysisId hasFullAccess batchNumber rest (fullResponse', True) s2)"

text \<open>
  \<open>processBatch\<close> and \<open>processMicroBatch\<close> differ in the prompt they build, which the
  model does not look at, and in the wording of their errors, which is \<open>label\<close> here.
\<close>

definition processBatchWith ::
  "string \<Rightarrow> string \<Rightarrow> env \<Rightarrow> job_id \<Rightarrow> nat \<Rightarrow> bool \<Rightarrow> llmOutcome \<Rightarrow> state
   \<Rightarrow> (string + string) \<times> state" where
  "processBatchWith Label label env analysisId batchNumber hasFullAccess out s =
     (case batchChunks env analysisId hasFullAccess batchNumber (chunks out) ([], False) s of
        ((fullResponse, hasContent), s1) \<Rightarrow>
          let s2 = await env s1;
              failed = Label @ '' '' @ showNat batchNumber @ '' processing failed: ''
          in (case failure out of
                Some errorMessage \<Rightarrow> (Inl (failed @ errorMessage), s2)
              | None \<Rightarrow>
                  if \<not> hasContent
                  then (Inl (failed @ ''No content received from LLM for '' @ label @ '' ''
                          @ showNat batchNumber), s2)
                  else
                    let displayResponse =
                          (if hasFullAccess then fullResponse
                           else truncateToPercentage fullResponse 30)
                    in (Inr fullResponse,
                        broadcastToStream analysisId
                          (EvBatchComplete batchNumber displayResponse) s2)))"

definition processBatch ::
  "env \<Rightarrow> job_id \<Rightarrow> nat \<Rightarrow> bool \<Rightarrow> llmOutcome \<Rightarrow> state \<Rightarrow> (string + string) \<times> state" where
  "processBatch = processBatchWith ''Batch'' ''batch''"

definition processMicroBatch ::
  "env \<Rightarrow> job_id \<Rightarrow> nat \<Rightarrow> bool \<Rightarrow> llmOutcome \<Rightarrow> state \<Rightarrow> (string + string) \<times> state" where
  "processMicroBatch = processBatchWith ''Micro batch'' ''micro batch''"

text \<open>
  \<open>streamDelay\<close>: \<open>steps + 1\<close> ticks, each broadcasting its progress and then suspending
  for the interval. It is only called with 10000 ms, so \<open>steps = 100\<close> and the rounded
  progress \<^verbatim>\<open>Math.round((step / steps) * 100)\<close> is \<open>step\<close>; for that call the integer
  formula below gives the same numbers. \<open>k\<close> is the number of ticks still to run.
\<close>

fun delayLoop :: "env \<Rightarrow> job_id \<Rightarrow> nat \<Rightarrow> nat \<Rightarrow> nat \<Rightarrow> state \<Rightarrow> state" where
  "delayLoop env analysisId steps step 0 s = s"
| "delayLoop env analysisId steps step (Suc k) s =
     delayLoop env analysisId steps (Suc step) k
       (await env (broadcastToStream analysisId
          (EvDelay ((step * 200 + steps) div (2 * steps))) s))"

definition streamDelay :: "env \<Rightarrow> job_id \<Rightarrow> nat \<Rightarrow> state \<Rightarrow> state" where
  "streamDelay env analysisId delayMs s =
     (let interval = 100; steps = delayMs div interval
      in delayLoop env analysisId steps 0 (Suc steps) s)"

text \<open>
  The batch loops. The source has three copies: the loop inside
  \<open>processCognitiveAnalysis\<close>, which leaves the method by a bare \<^verbatim>\<open>return\<close> when the
  channel is gone or inactive (\<open>silent\<close>), and \<open>processBatchesWithResults\<close> and
  \<open>processMicroBatchesWithResults\<close>, which throw \<^verbatim>\<open>Analysis stopped by user\<close> there and
  differ in calling \<open>processBatch\<close> or \<open>processMicroBatch\<close> (\<open>micro\<close>). \<open>i\<close> is the loop
  index, the list holds the batches from index \<open>i\<close> on, and the result \<open>Inr None\<close> is the
  bare \<^verbatim>\<open>return\<close>.
\<close>

fun batchLoop ::
  "bool \<Rightarrow> bool \<Rightarrow> env \<Rightarrow> (nat \<Rightarrow> llmOutcome) \<Rightarrow> job_id \<Rightarrow> bool \<Rightarrow> string list list
   \<Rightarrow> nat \<Rightarrow> string list \<Rightarrow> state \<Rightarrow> (string + string list option) \<times> state" where
  "batchLoop silent micro env llm analysisId hasFullAccess [] i batchResults s =
     (Inr (Some batchResults), s)"
| "batchLoop silent micro env llm analysisId hasFullAccess (batch # rest) i batchResults s =
     (if \<not> streamIsActive analysisId s
      then (if silent then (Inr None, s) else (Inl ''Analysis stopped by user'', s))
      else
        let batchNumber = i + 1
        in (case (if micro then processMicroBatch else processBatch)
                   env analysisId batchNumber hasFullAccess (llm batchNumber) s of
              (Inl e, s1) \<Rightarrow> (Inl e, s1)
            | (Inr batchResponse, s1) \<Rightarrow>
                let batchResults' = batchResults @ [batchResponse]
                in if \<not> streamIsActive analysisId s1
                   then (if silent then (Inr None, s1)
                         else (Inl ''Analysis stopped by user'', s1))
                   else batchLoop silent micro env llm analysisId hasFullAccess rest (i + 1)
                          batchResults'
                          (if rest \<noteq> [] then streamDelay env analysisId 10000 s1 else s1)))"

text \<open>
  The nine \<open>process...Analysis\<close> methods: the summary, the batches of five questions, and
  the write of the final results. They differ in the question list and in the batch
  loop they use, which are parameters here.
\<close>

definition processKindAnalysis ::
  "bool \<Rightarrow> bool \<Rightarrow> env \<Rightarrow> (nat \<Rightarrow> llmOutcome) \<Rightarrow> string list \<Rightarrow> job_id \<Rightarrow> string \<Rightarrow> bool
   \<Rightarrow> state \<Rightarrow> (string + unit) \<times> state" where
  "processKindAnalysis silent micro env llm questions analysisId analysisType hasFullAccess s =
     (case streamSummary env analysisId hasFullAccess (llm 0) s of
        (Inl e, s1) \<Rightarrow> (Inl e, s1)
      | (Inr summary, s1) \<Rightarrow>
          let batches = the (createBatches questions 5)
          in (case batchLoop silent micro env llm analysisId hasFullAccess batches 0 [] s1 of
                (Inl e, s2) \<Rightarrow> (Inl e, s2)
              | (Inr None, s2) \<Rightarrow> (Inr (), s2)
              | (Inr (Some batchResults), s2) \<Rightarrow>
                  (Inr (), await env
                     (updateAnalysisResults analysisId
                        (FinalResults summary batchResults questions analysisType) s2))))"

text \<open>
  The \<^verbatim>\<open>switch (analysis.type)\<close> of \<open>processAnalysis\<close>. \<open>qs kind\<close> is the question list
  that the \<open>LLMService\<close> getter of that kind returns.
\<close>

definition dispatchAnalysis ::
  "env \<Rightarrow> (nat \<Rightarrow> llmOutcome) \<Rightarrow> (string \<Rightarrow> string list) \<Rightarrow> job_id \<Rightarrow> string \<Rightarrow> bool
   \<Rightarrow> state \<Rightarrow> (string + unit) \<times> state" where
  "dispatchAnalysis env llm qs analysisId analysisType hasFullAccess s =
     (if analysisType = ''cognitive''
      then processKindAnalysis True False env llm (qs analysisType) analysisId analysisType
             hasFullAccess s
      else if analysisType \<in> {''comprehensive-cognitive'', ''psychological'',
                ''comprehensive-psychological'', ''psychopathological'',
                ''comprehensive-psychopathological''}
      then processKindAnalysis False False env llm (qs analysisType) analysisId analysisType
             hasFullAccess s
      else if analysisType \<in> {''microcognitive'', ''micropsychological'',
                ''micropsychopathological''}
      then processKindAnalysis False True env llm (qs analysisType) analysisId analysisType
             hasFullAccess s
      else (Inl (''Analysis type '' @ analysisType @ '' not implemented''), s))"

text \<open>
  The credit gate at the start of \<open>processAnalysis\<close>. \<^verbatim>\<open>if (analysis.userId)\<close> is a test
  for a truthy value: \<^verbatim>\<open>null\<close> and 0 are not. The result is \<open>hasFullAccess\<close>; an error of
  \<open>consumeUserCredits\<close> leaves \<open>processAnalysis\<close> before its \<^verbatim>\<open>try\<close>.
\<close>

definition resolveAccess ::
  "env \<Rightarrow> Analysis \<Rightarrow> state \<Rightarrow> (string + bool) \<times> state" where
  "resolveAccess env analysis s =
     (case userId analysis of
        None \<Rightarrow> (Inr False, s)
      | Some uid \<Rightarrow>
          if uid = 0 then (Inr False, s)
          else
            let requiredCredits = getRequiredCredits (type analysis);
                hasCredits = checkUserCredits uid requiredCredits (users s);
                s1 = await env s
            in if hasCredits
               then (case consumeUserCredits uid requiredCredits (users s1) of
                       Inl e \<Rightarrow> (Inl e, await env s1)
                     | Inr us \<Rightarrow> (Inr True, await env (s1\<lparr>users := us\<rparr>)))
               else (Inr False, s1))"

text \<open>
  The end of the \<^verbatim>\<open>try\<close> block: the job is read again, and only a job with results is
  marked completed and announced.
\<close>

definition verifyAndComplete :: "env \<Rightarrow> job_id \<Rightarrow> state \<Rightarrow> (string + unit) \<times> state" where
  "verifyAndComplete env analysisId s =
     (let s1 = await env s
      in (case analyses s1 analysisId of
            None \<Rightarrow> (Inl ''Analysis processing completed but results were not saved'', s1)
          | Some updatedAnalysis \<Rightarrow>
              (case results updatedAnalysis of
                 None \<Rightarrow> (Inl ''Analysis processing completed but results were not saved'', s1)
               | Some r \<Rightarrow>
                   (Inr (), broadcastToStream analysisId EvComplete
                      (await env (updateAnalysisStatus analysisId ''completed'' s1))))))"

text \<open>The \<^verbatim>\<open>catch\<close> block: the status and the error descriptor are written.\<close>

definition recordFailure :: "env \<Rightarrow> job_id \<Rightarrow> string \<Rightarrow> string \<Rightarrow> state \<Rightarrow> state" where
  "recordFailure env analysisId analysisType errorMessage s =
     await env (updateAnalysisResults analysisId (ErrorResults errorMessage analysisType)
       (await env (updateAnalysisStatus analysisId ''error'' s)))"

definition processAnalysis ::
  "env \<Rightarrow> (nat \<Rightarrow> llmOutcome) \<Rightarrow> (string \<Rightarrow> string list) \<Rightarrow> job_id \<Rightarrow> state
   \<Rightarrow> (string + unit) \<times> state" where
  "processAnalysis env llm qs analysisId s =
     (let s1 = await env s
      in (case analyses s1 analysisId of
            None \<Rightarrow> (Inl ''Analysis not found'', s1)
          | Some analysis \<Rightarrow>
              (case resolveAccess env analysis s1 of
                 (Inl e, s2) \<Rightarrow> (Inl e, s2)
               | (Inr hasFullAccess, s2) \<Rightarrow>
                   let s3 = await env (updateAnalysisStatus analysisId ''streaming'' s2)
                   in (case dispatchAnalysis env llm qs analysisId (type analysis)
                              hasFullAccess s3 of
                         (Inl e, s4) \<Rightarrow>
                           (Inl e, recordFailure env analysisId (type analysis) e s4)
                       | (Inr u, s4) \<Rightarrow>
                           (case verifyAndComplete env analysisId s4 of
                              (Inl e, s5) \<Rightarrow>
                                (Inl e, recordFailure env analysisId (type analysis) e s5)
                            | (Inr v, s5) \<Rightarrow> (Inr (), s5))))))"

text \<open>
  \<open>startAnalysis\<close>: the run, and the \<^verbatim>\<open>catch\<close> handler that broadcasts the \<open>error\<close> event.
\<close>

definition startAnalysis ::
  "env \<Rightarrow> (nat \<Rightarrow> llmOutcome) \<Rightarrow> (string \<Rightarrow> string list) \<Rightarrow> job_id \<Rightarrow> state \<Rightarrow> state" where
  "startAnalysis env llm qs analysisId s =
     (case processAnalysis env llm qs analysisId s of
        (Inl e, s1) \<Rightarrow> broadcastToStream analysisId (EvError e) s1
      | (Inr u, s1) \<Rightarrow> s1)"

section \<open>The provider stream parser (LLMService.streamResponse)\<close>

text \<open>
  The values \<^verbatim>\<open>JSON.parse\<close> returns. \<^verbatim>\<open>JSON.parse\<close> itself is a parameter of the parser
  below: a function from the text of a line to a value, \<open>None\<close> where it throws. An object
  is the list of its properties. Only whether a number is zero matters here, so a number
  is an integer.
\<close>

datatype json =
    JNull
  | JBool bool
  | JNum int
  | JStr string
  | JArr "json list"
  | JObj "(string \<times> json) list"

datatype provider = Zhi1 | Zhi2 | Zhi3 | Zhi4

text \<open>
  \<^verbatim>\<open>v.name\<close>, for the names the extraction reads (\<^verbatim>\<open>choices\<close>, \<^verbatim>\<open>delta\<close>, \<^verbatim>\<open>content\<close>,
  \<^verbatim>\<open>type\<close>, \<^verbatim>\<open>text\<close>): a \<^verbatim>\<open>TypeError\<close> on \<^verbatim>\<open>null\<close> (\<open>Inl\<close>), the property of an object, and
  \<^verbatim>\<open>undefined\<close> (\<open>None\<close>) for a missing property and for every other value.
\<close>

fun getProp :: "json \<Rightarrow> string \<Rightarrow> unit + json option" where
  "getProp JNull name = Inl ()"
| "getProp (JObj kvs) name = Inr (map_of kvs name)"
| "getProp v name = Inr None"

text \<open>\<^verbatim>\<open>v[0]\<close> on a value that is neither \<^verbatim>\<open>null\<close> nor \<^verbatim>\<open>undefined\<close>.\<close>

fun getIndex0 :: "json \<Rightarrow> json option" where
  "getIndex0 (JArr xs) = (case xs of [] \<Rightarrow> None | x # rest \<Rightarrow> Some x)"
| "getIndex0 (JStr s) = (case s of [] \<Rightarrow> None | c # rest \<Rightarrow> Some (JStr [c]))"
| "getIndex0 (JObj kvs) = map_of kvs ''0''"
| "getIndex0 v = None"

text \<open>
  The optional chain \<^verbatim>\<open>a?.b\<close>: \<^verbatim>\<open>undefined\<close> when \<open>a\<close> is \<^verbatim>\<open>null\<close> or \<^verbatim>\<open>undefined\<close>, the
  access otherwise.
\<close>

definition optProp :: "json option \<Rightarrow> string \<Rightarrow> json option" where
  "optProp a name =
     (case a of
        None \<Rightarrow> None
      | Some JNull \<Rightarrow> None
      | Some v \<Rightarrow> (case getProp v name of Inl u \<Rightarrow> None | Inr r \<Rightarrow> r))"

definition optIndex0 :: "json option \<Rightarrow> json option" where
  "optIndex0 a = (case a of None \<Rightarrow> None | Some JNull \<Rightarrow> None | Some v \<Rightarrow> getIndex0 v)"

fun truthy :: "json \<Rightarrow> bool" where
  "truthy JNull = False"
| "truthy (JBool b) = b"
| "truthy (JNum n) = (n \<noteq> 0)"
| "truthy (JStr s) = (s \<noteq> [])"
| "truthy (JArr xs) = True"
| "truthy (JObj kvs) = True"

text \<open>\<^verbatim>\<open>x || null\<close>.\<close>

definition orNull :: "json option \<Rightarrow> json" where
  "orNull x = (case x of None \<Rightarrow> JNull | Some v \<Rightarrow> if truthy v then v else JNull)"

text \<open>\<open>LLMService.extractContentFromResponse\<close>; \<open>Inl\<close> is a thrown \<^verbatim>\<open>TypeError\<close>.\<close>

definition extractContentFromResponse :: "json \<Rightarrow> provider \<Rightarrow> unit + json" where
  "extractContentFromResponse parsed p =
     (if p = Zhi2 then
        (case getProp parsed ''type'' of
           Inl u \<Rightarrow> Inl ()
         | Inr t \<Rightarrow>
             if t = Some (JStr ''content_block_delta'')
             then (case getProp parsed ''delta'' of
                     Inl u \<Rightarrow> Inl ()
                   | Inr d \<Rightarrow> Inr (orNull (optProp d ''text'')))
             else Inr JNull)
      else
        (case getProp parsed ''choices'' of
           Inl u \<Rightarrow> Inl ()
         | Inr c \<Rightarrow> Inr (orNull (optProp (optProp (optIndex0 c) ''delta'') ''content''))))"

text \<open>
  \<^verbatim>\<open>buffer.split('\n')\<close>: the pieces between the line feeds, at least one (so the case
  of no piece below is never taken).
\<close>

fun split_nl :: "string \<Rightarrow> string list" where
  "split_nl [] = [[]]"
| "split_nl (c # cs) =
     (if c = CHR 0x0A then [] # split_nl cs
      else (case split_nl cs of [] \<Rightarrow> [[c]] | w # ws \<Rightarrow> (c # w) # ws))"

text \<open>
  The body of \<^verbatim>\<open>for (const line of lines)\<close> for one line: what it yields (and hands to
  \<^verbatim>\<open>onChunk\<close>), and whether it was the \<^verbatim>\<open>[DONE]\<close> sentinel, which ends the generator. A
  line that does not parse, or whose extraction throws, is caught and skipped.
\<close>

definition processLine ::
  "(string \<Rightarrow> json option) \<Rightarrow> provider \<Rightarrow> string \<Rightarrow> json list \<times> bool" where
  "processLine parse p line =
     (if prefix ''data: '' line then
        let data = trim (drop 6 line)
        in if data = ''[DONE]'' then ([], True)
           else (case parse data of
                   None \<Rightarrow> ([], False)
                 | Some parsed \<Rightarrow>
                     (case extractContentFromResponse parsed p of
                        Inl u \<Rightarrow> ([], False)
                      | Inr content \<Rightarrow> if truthy content then ([content], False)
                                        else ([], False)))
      else ([], False))"

fun processLines ::
  "(string \<Rightarrow> json option) \<Rightarrow> provider \<Rightarrow> string list \<Rightarrow> json list \<times> bool" where
  "processLines parse p [] = ([], False)"
| "processLines parse p (line # rest) =
     (case processLine parse p line of
        (ys, True) \<Rightarrow> (ys, True)
      | (ys, False) \<Rightarrow>
          (case processLines parse p rest of (zs, done) \<Rightarrow> (ys @ zs, done)))"

text \<open>
  The read loop over the decoded network chunks of one response, which ends when the
  reader reports the end of the body; what is left in the buffer then is dropped. The
  result is the sequence of increments the generator yields.
\<close>

fun readLoop ::
  "(string \<Rightarrow> json option) \<Rightarrow> provider \<Rightarrow> string \<Rightarrow> string list \<Rightarrow> json list" where
  "readLoop parse p buffer [] = []"
| "readLoop parse p buffer (chunk # later) =
     (let lines = split_nl (buffer @ chunk);
          buffer' = last lines
      in (case processLines parse p (butlast lines) of
            (ys, True) \<Rightarrow> ys
          | (ys, False) \<Rightarrow> ys @ readLoop parse p buffer' later))"

definition streamResponse ::
  "(string \<Rightarrow> json option) \<Rightarrow> provider \<Rightarrow> string list \<Rightarrow> json list" where
  "streamResponse parse p networkChunks = readLoop parse p [] networkChunks"

section \<open>Observations on a run\<close>

text \<open>The \<open>raw_stream\<close> and \<open>batch_complete\<close> events.\<close>

definition isBatchEvent :: "event \<Rightarrow> bool" where
  "isBatchEvent e = (case e of EvRawStream n c \<Rightarrow> True | EvBatchComplete n c \<Rightarrow> True
                     | _ \<Rightarrow> False)"

text \<open>The \<open>raw_stream\<close> and \<open>batch_complete\<close> deliveries in the log.\<close>

definition batchEvents :: "state \<Rightarrow> (callback \<times> event) list" where
  "batchEvents s = filter (\<lambda>d. isBatchEvent (snd d)) (delivered s)"

text \<open>
  The state in which a run of \<open>processAnalysis\<close> makes the first check of its batch
  loop, when it gets that far: the job is found, it is of one of the nine kinds, and the
  summary phase has returned.
\<close>

definition firstCheckpoint ::
  "env \<Rightarrow> (nat \<Rightarrow> llmOutcome) \<Rightarrow> job_id \<Rightarrow> state \<Rightarrow> state option" where
  "firstCheckpoint env llm analysisId s =
     (let s1 = await env s
      in (case analyses s1 analysisId of
            None \<Rightarrow> None
          | Some analysis \<Rightarrow>
              if type analysis \<notin> set analysisKinds then None
              else
                (case resolveAccess env analysis s1 of
                   (Inl e, s2) \<Rightarrow> None
                 | (Inr hasFullAccess, s2) \<Rightarrow>
                     (case streamSummary env analysisId hasFullAccess (llm 0)
                             (await env (updateAnalysisStatus analysisId ''streaming'' s2)) of
                        (Inl e, s3) \<Rightarrow> None
                      | (Inr summary, s3) \<Rightarrow> Some s3))))"

definition stoppedBeforeFirstBatch ::
  "env \<Rightarrow> (nat \<Rightarrow> llmOutcome) \<Rightarrow> job_id \<Rightarrow> state \<Rightarrow> bool" where
  "stoppedBeforeFirstBatch env llm analysisId s =
     (case firstCheckpoint env llm analysisId s of
        None \<Rightarrow> False
      | Some s3 \<Rightarrow> \<not> streamIsActive analysisId s3)"

section \<open>Example data\<close>

text \<open>
  A job \<^verbatim>\<open>job\<close> of user 4 with one subscriber, callback 7, attached before the run; a
  provider that answers \<^verbatim>\<open>Hello world\<close> to the summary call and \<^verbatim>\<open>Answer one.\<close> to
  each batch call, in two increments each; two questions, so one batch; an environment
  in which nothing happens, and one in which the stop route is called at suspension
  point \<open>k\<close>.
\<close>

definition exampleJob :: "string \<Rightarrow> Analysis" where
  "exampleJob kind = \<lparr>type = kind, userId = Some 4, status = ''pending'', results = None\<rparr>"

definition exampleState :: "string \<Rightarrow> User \<Rightarrow> state" where
  "exampleState kind user =
     \<lparr>activeStreams = [''job'' \<mapsto> \<lparr>callbacks = [7], isActive = True\<rparr>],
      analyses = [''job'' \<mapsto> exampleJob kind],
      users = [4 \<mapsto> user],
      delivered = [],
      clock = 0\<rparr>"

definition alice :: "int \<Rightarrow> User" where
  "alice balance = \<lparr>username = ''alice'', credits = Some balance\<rparr>"

definition admin :: "int \<Rightarrow> User" where
  "admin balance = \<lparr>username = ''JMKuczynski'', credits = Some balance\<rparr>"

definition exampleLlm :: "nat \<Rightarrow> llmOutcome" where
  "exampleLlm n =
     (if n = 0 then \<lparr>chunks = [''Hello'', '' world''], failure = None\<rparr>
      else \<lparr>chunks = [''Answer '', ''one.''], failure = None\<rparr>)"

definition exampleQuestions :: "string \<Rightarrow> string list" where
  "exampleQuestions kind = [''IS IT INSIGHTFUL?'', ''IS IT REAL OR IS IT PHONY?'']"

definition quiet :: env where
  "quiet n = []"

definition stopAt :: "nat \<Rightarrow> env" where
  "stopAt k n = (if n = k then [ExtStopAnalysis ''job''] else [])"

text \<open>
  A stand-in for \<^verbatim>\<open>JSON.parse\<close> that knows two event payloads and rejects every other
  text, and a response body of five lines: two events with content around a line that
  does not parse, an empty line and a comment line.
\<close>

definition exampleParse :: "string \<Rightarrow> json option" where
  \<open>exampleParse t =
     (if t = ''{"choices":[{"delta":{"content":"Hello"}}]}''
      then Some (JObj [(''choices'', JArr [JObj [(''delta'', JObj [(''content'', JStr ''Hello'')])]])])
      else if t = ''{"choices":[{"delta":{"content":" world"}}]}''
      then Some (JObj [(''choices'', JArr [JObj [(''delta'', JObj [(''content'', JStr '' world'')])]])])
      else None)\<close>

definition exampleLines :: "string list" where
  \<open>exampleLines =
     [''data: {"choices":[{"delta":{"content":"Hello"}}]}'',
      '''',
      ''data: {"choices":[{"delta":{"cont'',
      '': keep-alive'',
      ''data: {"choices":[{"delta":{"content":" world"}}]}'']\<close>

definition exampleBody :: string where
  "exampleBody = concat (map (\<lambda>l. l @ [CHR 0x0A]) exampleLines)"

section \<open>Properties of the batch partition\<close>

lemma createBatches_loop_returns:
  "0 < b \<Longrightarrow> \<exists>bs. createBatches_loop items b i acc = Some bs"
proof (induction items b i acc rule: createBatches_loop.induct)
  case (1 items batchSize i batches)
  then show ?case
    by (cases "i < length items") (simp_all add: createBatches_loop.simps [of items batchSize i])
qed

lemma take_drop_rejoin: "take b (drop i xs) @ drop (i + b) xs = drop i xs"
  by (metis add.commute append_take_drop_id drop_drop)

lemma createBatches_loop_concat:
  "0 < b \<Longrightarrow> createBatches_loop items b i acc = Some bs \<Longrightarrow>
   concat bs = concat acc @ drop i items"
proof (induction items b i acc arbitrary: bs rule: createBatches_loop.induct)
  case (1 items batchSize i batches)
  show ?case
  proof (cases "i < length items")
    case True
    with "1.prems" have rec: "createBatches_loop items batchSize (i + batchSize)
        (batches @ [slice items i (i + batchSize)]) = Some bs"
      by (simp add: createBatches_loop.simps [of items batchSize i])
    have "concat bs = concat (batches @ [slice items i (i + batchSize)])
        @ drop (i + batchSize) items"
      using "1.IH" [OF True _ _ rec] "1.prems"(1) by simp
    also have "\<dots> = concat batches @ (take batchSize (drop i items)
        @ drop (i + batchSize) items)"
      by (simp add: slice_def)
    finally show ?thesis by (simp only: take_drop_rejoin)
  next
    case False
    with "1.prems" show ?thesis
      by (simp add: createBatches_loop.simps [of items batchSize i])
  qed
qed

lemma ceil_div_step:
  fixes n b :: nat
  assumes "0 < b" "0 < n"
  shows "(n + (b - 1)) div b = Suc ((n - b + (b - 1)) div b)"
proof (cases "b \<le> n")
  case True
  then have "n + (b - 1) = (n - b + (b - 1)) + b" by simp
  then have "(n + (b - 1)) div b = ((n - b + (b - 1)) + b) div b" by simp
  also have "\<dots> = Suc ((n - b + (b - 1)) div b)"
    using assms(1) by (simp only: div_add_self2)
  finally show ?thesis .
next
  case False
  then have "n - b + (b - 1) < b" using assms by simp
  then have r: "(n - b + (b - 1)) div b = 0" by simp
  from False assms have k: "n + (b - 1) = (n - 1) + b" and k2: "n - 1 < b"
    by arith+
  have "((n - 1) + b) div b = (n - 1) div b + 1"
    using assms(1) by (simp only: div_add_self2)
  also have "\<dots> = 1" using k2 by simp
  finally show ?thesis using r k by simp
qed

lemma ceil_div_loop:
  fixes len i b :: nat
  assumes "0 < b" "i < len"
  shows "(len - i + (b - 1)) div b = Suc ((len - (i + b) + (b - 1)) div b)"
proof -
  have "len - (i + b) = len - i - b" by simp
  moreover have "0 < len - i" using assms(2) by simp
  ultimately show ?thesis
    using ceil_div_step [OF assms(1), of "len - i"] by (simp only:)
qed

lemma createBatches_loop_length:
  "0 < b \<Longrightarrow> createBatches_loop items b i acc = Some bs \<Longrightarrow>
   length bs = length acc + (length items - i + (b - 1)) div b"
proof (induction items b i acc arbitrary: bs rule: createBatches_loop.induct)
  case (1 items batchSize i batches)
  show ?case
  proof (cases "i < length items")
    case True
    with "1.prems" have rec: "createBatches_loop items batchSize (i + batchSize)
        (batches @ [slice items i (i + batchSize)]) = Some bs"
      by (simp add: createBatches_loop.simps [of items batchSize i])
    have len: "length bs = Suc (length batches)
        + (length items - (i + batchSize) + (batchSize - 1)) div batchSize"
      using "1.IH" [OF True _ _ rec] "1.prems"(1) by simp
    show ?thesis
      using len ceil_div_loop [OF "1.prems"(1) True] by (simp only:)
  next
    case False
    with "1.prems" show ?thesis
      by (simp add: createBatches_loop.simps [of items batchSize i])
  qed
qed

lemma createBatches_loop_nonempty:
  "0 < b \<Longrightarrow> createBatches_loop items b i acc = Some bs \<Longrightarrow>
   [] \<notin> set acc \<Longrightarrow> [] \<notin> set bs"
proof (induction items b i acc arbitrary: bs rule: createBatches_loop.induct)
  case (1 items batchSize i batches)
  show ?case
  proof (cases "i < length items")
    case True
    with "1.prems" have rec: "createBatches_loop items batchSize (i + batchSize)
        (batches @ [slice items i (i + batchSize)]) = Some bs"
      by (simp add: createBatches_loop.simps [of items batchSize i])
    have "slice items i (i + batchSize) \<noteq> []"
      using True "1.prems"(1) by (simp add: slice_def)
    with "1.prems"(3) have "[] \<notin> set (batches @ [slice items i (i + batchSize)])"
      by auto
    with "1.IH" [OF True _ _ rec] "1.prems"(1) show ?thesis by simp
  next
    case False
    with "1.prems" show ?thesis
      by (simp add: createBatches_loop.simps [of items batchSize i])
  qed
qed

lemma createBatches_loop_full:
  "0 < b \<Longrightarrow> createBatches_loop items b i acc = Some bs \<Longrightarrow>
   \<forall>x \<in> set acc. length x = b \<Longrightarrow> \<forall>x \<in> set (butlast bs). length x = b"
proof (induction items b i acc arbitrary: bs rule: createBatches_loop.induct)
  case (1 items batchSize i batches)
  show ?case
  proof (cases "i < length items")
    case True
    with "1.prems" have rec: "createBatches_loop items batchSize (i + batchSize)
        (batches @ [slice items i (i + batchSize)]) = Some bs"
      by (simp add: createBatches_loop.simps [of items batchSize i])
    show ?thesis
    proof (cases "i + batchSize \<le> length items")
      case True
      then have "length (slice items i (i + batchSize)) = batchSize"
        by (simp add: slice_def)
      with "1.prems"(3)
      have "\<forall>x \<in> set (batches @ [slice items i (i + batchSize)]). length x = batchSize"
        by auto
      with "1.IH" [OF \<open>i < length items\<close> _ _ rec] "1.prems"(1) show ?thesis by simp
    next
      case False
      then have "bs = batches @ [slice items i (i + batchSize)]"
        using rec by (simp add: createBatches_loop.simps [of items batchSize "i + batchSize"])
      with "1.prems"(3) show ?thesis by simp
    qed
  next
    case False
    with "1.prems" have "bs = batches"
      by (simp add: createBatches_loop.simps [of items batchSize i])
    with "1.prems"(3) show ?thesis by (auto dest: in_set_butlastD)
  qed
qed

text \<open>
  C7. For every question list of length N and batch size 5, \<open>createBatches\<close> returns a
  partition with exactly \<open>\<lceil>N/5\<rceil>\<close> batches, every batch is non-empty, every batch except
  possibly the last has exactly 5 elements, and the concatenation of the batches in
  order is the original list.
\<close>

theorem createBatches_partition:
  "\<exists>bs. createBatches items 5 = Some bs
      \<and> length bs = (length items + 4) div 5
      \<and> (\<forall>b \<in> set bs. b \<noteq> [])
      \<and> (\<forall>b \<in> set (butlast bs). length b = 5)
      \<and> concat bs = items"
proof -
  obtain bs where bs: "createBatches_loop items 5 0 [] = Some bs"
    using createBatches_loop_returns [of 5 items 0 "[]"] by auto
  have "length bs = (length items + 4) div 5"
    using createBatches_loop_length [OF _ bs] by simp
  moreover have "\<forall>b \<in> set bs. b \<noteq> []"
    using createBatches_loop_nonempty [OF _ bs] by auto
  moreover have "\<forall>b \<in> set (butlast bs). length b = 5"
    using createBatches_loop_full [OF _ bs] by simp
  moreover have "concat bs = items"
    using createBatches_loop_concat [OF _ bs] by simp
  ultimately show ?thesis
    using bs by (simp add: createBatches_def)
qed

theorem createBatches_partition_witness:
  "createBatches [1, 2, 3, 4, 5, 6, 7 :: nat] 5 = Some [[1, 2, 3, 4, 5], [6, 7]]
   \<and> (\<exists>bs. createBatches [1, 2, 3, 4, 5, 6, 7 :: nat] 5 = Some bs
      \<and> length bs = 2
      \<and> (\<forall>b \<in> set bs. b \<noteq> [])
      \<and> (\<forall>b \<in> set (butlast bs). length b = 5)
      \<and> concat bs = [1, 2, 3, 4, 5, 6, 7])"
proof -
  have run: "createBatches [1, 2, 3, 4, 5, 6, 7 :: nat] 5 = Some [[1, 2, 3, 4, 5], [6, 7]]"
    by code_simp
  show ?thesis
    using createBatches_partition [of "[1, 2, 3, 4, 5, 6, 7 :: nat]"] run by simp
qed

section \<open>The registry and the environment leave the storage alone\<close>

lemma broadcastToStream_frame [simp]:
  "analyses (broadcastToStream j e s) = analyses s"
  "users (broadcastToStream j e s) = users s"
  "activeStreams (broadcastToStream j e s) = activeStreams s"
  "clock (broadcastToStream j e s) = clock s"
  by (simp_all add: broadcastToStream_def split: option.splits)

lemma broadcastToStream_inactive [simp]:
  "\<not> streamIsActive j s \<Longrightarrow> broadcastToStream j e s = s"
  by (simp add: broadcastToStream_def streamIsActive_def split: option.splits)

lemma streamIsActive_broadcastToStream [simp]:
  "streamIsActive j (broadcastToStream k e s) = streamIsActive j s"
  by (simp add: streamIsActive_def)

lemma stopAnalysis_delivered: "delivered (stopAnalysis j s) = delivered s"
  by (simp add: stopAnalysis_def broadcastToStream_def split: option.splits)

lemma applyExt_frame [simp]:
  "analyses (applyExt a s) = analyses s"
  "users (applyExt a s) = users s"
  "delivered (applyExt a s) = delivered s"
  "clock (applyExt a s) = clock s"
  by (cases a; simp add: streamAnalysis_def stopStreaming_def stopAnalysis_def
        broadcastToStream_def Let_def split: option.splits)+

lemma fold_applyExt_frame [simp]:
  "analyses (fold applyExt as s) = analyses s"
  "users (fold applyExt as s) = users s"
  "delivered (fold applyExt as s) = delivered s"
  "clock (fold applyExt as s) = clock s"
  by (induction as arbitrary: s; simp)+

lemma await_frame [simp]:
  "analyses (await env s) = analyses s"
  "users (await env s) = users s"
  "delivered (await env s) = delivered s"
  "clock (await env s) = Suc (clock s)"
  by (simp_all add: await_def)

lemma updateAnalysisStatus_frame [simp]:
  "users (updateAnalysisStatus j st s) = users s"
  "delivered (updateAnalysisStatus j st s) = delivered s"
  "activeStreams (updateAnalysisStatus j st s) = activeStreams s"
  "clock (updateAnalysisStatus j st s) = clock s"
  by (simp_all add: updateAnalysisStatus_def split: option.splits)

lemma updateAnalysisResults_frame [simp]:
  "users (updateAnalysisResults j r s) = users s"
  "delivered (updateAnalysisResults j r s) = delivered s"
  "activeStreams (updateAnalysisResults j r s) = activeStreams s"
  "clock (updateAnalysisResults j r s) = clock s"
  by (simp_all add: updateAnalysisResults_def split: option.splits)

section \<open>Credits\<close>

text \<open>
  C10. For an existing user who is not the unlimited identity, and every amount,
  \<open>consumeUserCredits\<close> stores the balance \<open>max 0 (previous balance - amount)\<close> (a
  \<^verbatim>\<open>null\<close> balance counting as 0), so the stored balance is not negative afterwards,
  also when the amount exceeds the balance. Other users keep their rows.
\<close>

theorem consumeUserCredits_clamps:
  assumes "us uid = Some user" and "\<not> isAdmin user"
  shows "\<exists>us' user'. consumeUserCredits uid amount us = Inr us'
           \<and> us' uid = Some user'
           \<and> credits user' = Some (max 0 (creditsOr0 user - amount))
           \<and> 0 \<le> creditsOr0 user'
           \<and> username user' = username user
           \<and> (\<forall>v. v \<noteq> uid \<longrightarrow> us' v = us v)"
  using assms
  by (simp add: consumeUserCredits_def updateUserCredits_def creditsOr0_def)

theorem consumeUserCredits_clamps_witness:
  "\<exists>us' user'.
      consumeUserCredits 4 500 [4 \<mapsto> \<lparr>username = ''alice'', credits = Some 300\<rparr>] = Inr us'
      \<and> us' 4 = Some user'
      \<and> credits user' = Some 0
      \<and> 0 \<le> creditsOr0 user'
      \<and> username user' = ''alice''
      \<and> (\<forall>v. v \<noteq> 4 \<longrightarrow> us' v = [4 \<mapsto> \<lparr>username = ''alice'', credits = Some 300\<rparr>] v)"
proof -
  have a: "[4 \<mapsto> \<lparr>username = ''alice'', credits = Some 300\<rparr>] (4::nat)
      = Some \<lparr>username = ''alice'', credits = Some 300\<rparr>"
    by simp
  have b: "\<not> isAdmin \<lparr>username = ''alice'', credits = Some 300\<rparr>"
    by code_simp
  show ?thesis
    using consumeUserCredits_clamps
      [of "[4 \<mapsto> \<lparr>username = ''alice'', credits = Some 300\<rparr>]" 4
          "\<lparr>username = ''alice'', credits = Some 300\<rparr>" 500] a b
    by (simp add: creditsOr0_def)
qed

text \<open>
  C5. The credit gate of \<open>processAnalysis\<close>, for a job of one of the nine kinds whose
  owning user exists. A user who is not the unlimited identity and whose balance is
  below the cost of the kind gets the partial tier and no deduction; one whose balance
  is at or above the cost gets the full tier and the balance goes down by exactly the
  cost; the unlimited identity gets the full tier whatever the balance, which is not
  changed.
\<close>

theorem resolveAccess_credit_gate:
  assumes "userId analysis = Some uid" and "uid \<noteq> 0"
    and "users s uid = Some user"
    and "type analysis \<in> set analysisKinds"
  shows "(\<not> isAdmin user \<and> creditsOr0 user < getRequiredCredits (type analysis) \<longrightarrow>
            fst (resolveAccess env analysis s) = Inr False
            \<and> users (snd (resolveAccess env analysis s)) = users s)
       \<and> (\<not> isAdmin user \<and> getRequiredCredits (type analysis) \<le> creditsOr0 user \<longrightarrow>
            fst (resolveAccess env analysis s) = Inr True
            \<and> users (snd (resolveAccess env analysis s)) =
                (users s)(uid \<mapsto> user\<lparr>credits :=
                   Some (creditsOr0 user - getRequiredCredits (type analysis))\<rparr>))
       \<and> (isAdmin user \<longrightarrow>
            fst (resolveAccess env analysis s) = Inr True
            \<and> users (snd (resolveAccess env analysis s)) = users s)"
  using assms
  by (simp add: resolveAccess_def checkUserCredits_def consumeUserCredits_def
      updateUserCredits_def Let_def)


theorem resolveAccess_credit_gate_witness:
  "fst (resolveAccess quiet (exampleJob ''psychological'')
          (exampleState ''psychological'' (alice 300))) = Inr False
   \<and> users (snd (resolveAccess quiet (exampleJob ''psychological'')
          (exampleState ''psychological'' (alice 300)))) 4 = Some (alice 300)
   \<and> fst (resolveAccess quiet (exampleJob ''psychological'')
          (exampleState ''psychological'' (alice 2000))) = Inr True
   \<and> users (snd (resolveAccess quiet (exampleJob ''psychological'')
          (exampleState ''psychological'' (alice 2000)))) 4 = Some (alice 500)
   \<and> fst (resolveAccess quiet (exampleJob ''psychological'')
          (exampleState ''psychological'' (admin 0))) = Inr True
   \<and> users (snd (resolveAccess quiet (exampleJob ''psychological'')
          (exampleState ''psychological'' (admin 0)))) 4 = Some (admin 0)"
proof -
  have kind: "type (exampleJob ''psychological'') \<in> set analysisKinds"
    by (simp add: exampleJob_def analysisKinds_def)
  have cost: "getRequiredCredits (type (exampleJob ''psychological'')) = 1500"
    by (simp add: exampleJob_def getRequiredCredits_def)
  have uid: "userId (exampleJob ''psychological'') = Some 4" "(4::nat) \<noteq> 0"
    by (simp_all add: exampleJob_def)
  have usr: "\<And>u. users (exampleState ''psychological'' u) 4 = Some u"
    by (simp add: exampleState_def)
  have nonadmin: "\<And>b. \<not> isAdmin (alice b)"
    by (simp add: alice_def isAdmin_def toLowerCase_def)
  have isadmin: "isAdmin (admin 0)"
    by code_simp
  have bal: "\<And>b. creditsOr0 (alice b) = b" "\<And>b c. (alice b)\<lparr>credits := Some c\<rparr> = alice c"
    by (simp_all add: alice_def creditsOr0_def)
  show ?thesis
    using resolveAccess_credit_gate [OF uid usr kind, of "alice 300" quiet]
      resolveAccess_credit_gate [OF uid usr kind, of "alice 2000" quiet]
      resolveAccess_credit_gate [OF uid usr kind, of "admin 0" quiet]
      nonadmin isadmin
    by (simp add: cost bal usr)
qed

section \<open>Stopping a job\<close>

text \<open>
  C1. \<open>stop(jobId)\<close> is to deliver exactly one \<open>stopped\<close> event to each attached
  subscriber before the channel is cleared and removed. \<open>stopAnalysis\<close> clears the
  active flag first, and \<open>broadcastToStream\<close> does nothing on an inactive channel: on a
  channel with the subscribers 1 and 2 nothing at all is delivered, and the channel is
  removed.
\<close>

theorem stopAnalysis_delivers_no_stopped_event:
  "delivered (stopAnalysis ''job''
      \<lparr>activeStreams = [''job'' \<mapsto> \<lparr>callbacks = [1, 2], isActive = True\<rparr>],
       analyses = Map.empty, users = Map.empty, delivered = [], clock = 0\<rparr>) = []
   \<and> activeStreams (stopAnalysis ''job''
      \<lparr>activeStreams = [''job'' \<mapsto> \<lparr>callbacks = [1, 2], isActive = True\<rparr>],
       analyses = Map.empty, users = Map.empty, delivered = [], clock = 0\<rparr>) ''job'' = None"
  by (simp add: stopAnalysis_def broadcastToStream_def)

section \<open>Truncation at the partial tier\<close>

subsection \<open>Splitting into words and joining again\<close>

lemma split_ws_nonempty [simp]: "split_ws t \<noteq> []"
  using split_ws.simps [of t] by (auto simp: Let_def)

lemma split_ws_last:
  "dropWhile (\<lambda>c. \<not> isSpace c) t = [] \<Longrightarrow> split_ws t = [takeWhile (\<lambda>c. \<not> isSpace c) t]"
  using split_ws.simps [of t] by (auto simp: Let_def)

lemma split_ws_step:
  "dropWhile (\<lambda>c. \<not> isSpace c) t \<noteq> [] \<Longrightarrow>
   split_ws t = takeWhile (\<lambda>c. \<not> isSpace c) t
     # split_ws (dropWhile isSpace (dropWhile (\<lambda>c. \<not> isSpace c) t))"
  using split_ws.simps [of t] by (auto simp: Let_def)

lemma dropWhile_isSpace_head:
  "dropWhile isSpace r = [] \<or> \<not> isSpace (hd (dropWhile isSpace r))"
  using hd_dropWhile [of isSpace r] by blast

lemma split_ws_noSpace: "w \<in> set (split_ws t) \<Longrightarrow> noSpace w"
proof (induction t arbitrary: w rule: split_ws.induct)
  case (1 t)
  have tw: "noSpace (takeWhile (\<lambda>c. \<not> isSpace c) t)"
    by (auto simp: noSpace_def dest: set_takeWhileD)
  show ?case
  proof (cases "dropWhile (\<lambda>c. \<not> isSpace c) t = []")
    case True
    from "1.prems" tw show ?thesis
      unfolding split_ws_last [OF True] by simp
  next
    case False
    from "1.prems" have "w = takeWhile (\<lambda>c. \<not> isSpace c) t
        \<or> w \<in> set (split_ws (dropWhile isSpace (dropWhile (\<lambda>c. \<not> isSpace c) t)))"
      unfolding split_ws_step [OF False] by simp
    with tw "1.IH" [OF refl refl False] show ?thesis by auto
  qed
qed

lemma split_ws_inner_nonempty:
  "t = [] \<or> \<not> isSpace (hd t) \<Longrightarrow> w \<in> set (butlast (split_ws t)) \<Longrightarrow> w \<noteq> []"
proof (induction t arbitrary: w rule: split_ws.induct)
  case (1 t)
  let ?rest = "dropWhile (\<lambda>c. \<not> isSpace c) t"
  let ?next = "dropWhile isSpace ?rest"
  show ?case
  proof (cases "?rest = []")
    case True
    from "1.prems"(2) show ?thesis
      unfolding split_ws_last [OF True] by simp
  next
    case False
    from False have "t \<noteq> []" by auto
    with "1.prems"(1) have "\<not> isSpace (hd t)" by simp
    with \<open>t \<noteq> []\<close> have first: "takeWhile (\<lambda>c. \<not> isSpace c) t \<noteq> []"
      by (cases t) auto
    from "1.prems"(2) have "w = takeWhile (\<lambda>c. \<not> isSpace c) t
        \<or> w \<in> set (butlast (split_ws ?next))"
      unfolding split_ws_step [OF False] by (simp split: if_splits)
    with first "1.IH" [OF refl refl False dropWhile_isSpace_head] show ?thesis by auto
  qed
qed

lemma split_ws_middle_nonempty:
  "w \<in> set (butlast (tl (split_ws t))) \<Longrightarrow> w \<noteq> []"
proof -
  assume w: "w \<in> set (butlast (tl (split_ws t)))"
  let ?rest = "dropWhile (\<lambda>c. \<not> isSpace c) t"
  let ?next = "dropWhile isSpace ?rest"
  show ?thesis
  proof (cases "?rest = []")
    case True
    from w show ?thesis
      unfolding split_ws_last [OF True] by simp
  next
    case False
    from w have "w \<in> set (butlast (split_ws ?next))"
      unfolding split_ws_step [OF False] by simp
    with dropWhile_isSpace_head [of ?rest] show ?thesis
      by (rule split_ws_inner_nonempty)
  qed
qed

lemma split_ws_noSpace_word: "noSpace w \<Longrightarrow> split_ws w = [w]"
proof -
  assume "noSpace w"
  then have all: "\<forall>c \<in> set w. \<not> isSpace c" by (simp add: noSpace_def)
  then have "dropWhile (\<lambda>c. \<not> isSpace c) w = []" by simp
  from split_ws_last [OF this] all show ?thesis by simp
qed

lemma join_sp_head: "v \<noteq> [] \<Longrightarrow> join_sp (v # ws) \<noteq> [] \<and> hd (join_sp (v # ws)) = hd v"
  by (cases ws) auto

lemma isSpace_space [simp]: "isSpace CHR '' ''"
  by (simp add: isSpace_def)

lemma split_ws_join_sp:
  "ws \<noteq> [] \<Longrightarrow> \<forall>w \<in> set ws. noSpace w \<Longrightarrow> \<forall>w \<in> set (tl ws). w \<noteq> [] \<Longrightarrow>
   split_ws (join_sp ws) = ws"
proof (induction ws rule: join_sp.induct)
  case 1
  then show ?case by simp
next
  case (2 w)
  then show ?case by (simp add: split_ws_noSpace_word)
next
  case (3 w v ws)
  let ?tail = "join_sp (v # ws)"
  let ?all = "w @ CHR '' '' # ?tail"
  from "3.prems" have w: "\<forall>c \<in> set w. \<not> isSpace c" by (simp add: noSpace_def)
  from "3.prems" have v: "v \<noteq> []" "noSpace v" by simp_all
  then have hdv: "\<not> isSpace (hd v)" by (cases v) (auto simp: noSpace_def)
  from join_sp_head [OF v(1)] hdv have tail: "?tail \<noteq> []" "\<not> isSpace (hd ?tail)" by simp_all
  have tw: "takeWhile (\<lambda>c. \<not> isSpace c) ?all = w"
    using w by simp
  have dw: "dropWhile (\<lambda>c. \<not> isSpace c) ?all = CHR '' '' # ?tail"
    using w by simp
  have ds: "dropWhile isSpace (CHR '' '' # ?tail) = ?tail"
    using tail by (cases ?tail) auto
  have "dropWhile (\<lambda>c. \<not> isSpace c) ?all \<noteq> []"
    unfolding dw by simp
  from split_ws_step [OF this] have "split_ws ?all = w # split_ws ?tail"
    unfolding tw dw ds .
  moreover have "split_ws ?tail = v # ws"
    using "3.IH" "3.prems" by simp
  moreover have "join_sp (w # v # ws) = ?all" by simp
  ultimately show ?case by (simp only:)
qed

lemma floorPercent_30_less: "0 < n \<Longrightarrow> floorPercent n 30 < n"
  by (simp add: floorPercent_def)

lemma truncated_words:
  "split_ws (join_sp (take (max 1 (floorPercent (length (split_ws t)) 30)) (split_ws t)))
   = take (max 1 (floorPercent (length (split_ws t)) 30)) (split_ws t)"
proof -
  define S where "S = split_ws t"
  define k where "k = max 1 (floorPercent (length S) 30)"
  have Sne: "S \<noteq> []" by (simp add: S_def)
  then have n: "0 < length S" by simp
  have k1: "1 \<le> k" by (simp add: k_def)
  have ne: "take k S \<noteq> []" using Sne k1 by simp
  have ns: "\<forall>w \<in> set (take k S). noSpace w"
    using split_ws_noSpace [of _ t] by (auto simp: S_def dest: in_set_takeD)
  have mid: "\<forall>w \<in> set (tl (take k S)). w \<noteq> []"
  proof (cases "k < length S")
    case True
    then have lt: "k - 1 < length (tl S)" using k1 by simp
    have "tl (take k S) = take (k - 1) (tl S)"
      by (rule tl_take)
    also have "\<dots> = take (k - 1) (butlast (tl S))"
      by (rule take_butlast [OF lt, symmetric])
    finally have "set (tl (take k S)) \<subseteq> set (butlast (tl S))"
      by (simp add: set_take_subset)
    moreover have "\<forall>w \<in> set (butlast (tl S)). w \<noteq> []"
      using split_ws_middle_nonempty [of _ t] by (auto simp: S_def)
    ultimately show ?thesis by blast
  next
    case False
    have "floorPercent (length S) 30 < length S" by (rule floorPercent_30_less [OF n])
    with False have "length S \<le> 1" by (simp add: k_def)
    then have "length (take k S) \<le> 1" by simp
    then have "length (tl (take k S)) = 0" unfolding length_tl by simp
    then have "tl (take k S) = []" by (simp only: length_0_conv)
    then show ?thesis by simp
  qed
  from ne ns mid have "split_ws (join_sp (take k S)) = take k S"
    by (rule split_ws_join_sp)
  then show ?thesis by (simp add: k_def S_def)
qed

subsection \<open>The cut point of the character-based truncation\<close>

lemma endingLoop_result:
  "endingLoop t i es cp = cp
   \<or> (\<exists>e \<in> set es. substring t i (i + length e) = e \<and> endingLoop t i es cp = i + length e)"
  by (induction es) auto

lemma sentenceEndings_length: "e \<in> set sentenceEndings \<Longrightarrow> length e = 2"
  by (auto simp: sentenceEndings_def)

lemma substring_full_length:
  "substring t i (i + 2) = e \<Longrightarrow> length e = 2 \<Longrightarrow> i + 2 \<le> length t"
  by (auto simp: substring_def)

lemma sentenceLoop_result:
  "sentenceLoop t target i = target
   \<or> (\<exists>j \<le> i. sentenceLoop t target i = j + 2
        \<and> substring t j (j + 2) \<in> set sentenceEndings)"
proof (induction t target i rule: sentenceLoop.induct)
  case (1 t target i)
  let ?cp = "endingLoop t i sentenceEndings target"
  show ?case
  proof (cases "?cp \<noteq> target")
    case True
    then have res: "sentenceLoop t target i = ?cp"
      using sentenceLoop.simps [of t target i] by (simp add: Let_def)
    from True endingLoop_result [of t i sentenceEndings target]
    obtain e where e: "e \<in> set sentenceEndings" "substring t i (i + length e) = e"
        "?cp = i + length e"
      by auto
    with sentenceEndings_length [OF e(1)] res show ?thesis by auto
  next
    case False
    show ?thesis
    proof (cases "max 0 (target - 100) < i")
      case True
      with False have "sentenceLoop t target i = sentenceLoop t target (i - 1)"
        using sentenceLoop.simps [of t target i] by (simp add: Let_def)
      with "1.IH" [OF refl _ True] False show ?thesis
        by (metis diff_le_self le_trans)
    next
      case n: False
      with False have "sentenceLoop t target i = target"
        using sentenceLoop.simps [of t target i] by (simp add: Let_def)
      then show ?thesis by simp
    qed
  qed
qed

lemma wordBoundary_result:
  "wordBoundary t n \<le> n
   \<and> (wordBoundary t n = 0 \<or> charAt t (wordBoundary t n) = Some CHR '' '')"
  by (induction n) (auto simp: le_Suc_eq)

lemma cutPointFor_result:
  assumes "target \<le> length t"
  shows "cutPointFor t target \<le> length t
       \<and> cutPointFor t target \<le> target + 2
       \<and> (cutPointFor t target = 0
          \<or> charAt t (cutPointFor t target) = Some CHR '' ''
          \<or> (2 \<le> cutPointFor t target
              \<and> substring t (cutPointFor t target - 2) (cutPointFor t target)
                  \<in> set sentenceEndings))"
proof (cases "sentenceLoop t target target = target")
  case True
  then have "cutPointFor t target = wordBoundary t target"
    by (simp add: cutPointFor_def)
  with wordBoundary_result [of t target] assms show ?thesis by auto
next
  case False
  then have c: "cutPointFor t target = sentenceLoop t target target"
    by (simp add: cutPointFor_def Let_def)
  from False sentenceLoop_result [of t target target]
  obtain j where j: "j \<le> target" "sentenceLoop t target target = j + 2"
      "substring t j (j + 2) \<in> set sentenceEndings"
    by auto
  from sentenceEndings_length [OF j(3)] have "j + 2 \<le> length t"
    by (rule substring_full_length [OF refl])
  with c j show ?thesis by simp
qed

subsection \<open>Trimming a prefix\<close>

lemma prefix_dropWhile_take: "prefix (dropWhile P (take c xs)) (dropWhile P xs)"
proof (induction xs arbitrary: c)
  case Nil
  then show ?case by simp
next
  case (Cons x xs)
  then show ?case by (cases c) (auto simp: take_is_prefix)
qed

lemma prefix_trim_end: "prefix (rev (dropWhile P (rev s))) s"
proof -
  have "rev (dropWhile P (rev s)) @ rev (takeWhile P (rev s))
      = rev (takeWhile P (rev s) @ dropWhile P (rev s))"
    by (simp only: rev_append)
  also have "\<dots> = s"
    by (simp only: takeWhile_dropWhile_id rev_rev_ident)
  finally show ?thesis by (metis prefixI)
qed

lemma prefix_trim_take: "prefix (trim (take c t)) (dropWhile isSpace t)"
proof -
  have "prefix (trim (take c t)) (dropWhile isSpace (take c t))"
    unfolding trim_def by (rule prefix_trim_end)
  then show ?thesis
    using prefix_dropWhile_take [of isSpace c t] by (rule prefix_order.trans)
qed

lemma floorPercent_30_le: "floorPercent n 30 \<le> n"
  by (simp add: floorPercent_def)

subsection \<open>The two truncations\<close>

text \<open>
  C6, as stated, fails in its last conjunct: the character-based truncation trims white
  space at both ends, so for a text that starts with white space its output is not a
  prefix of the text.
\<close>

theorem client_truncation_not_prefix:
  "\<not> prefix (truncateToPercentage_client '' a b c d e f g h i j'' 30) '' a b c d e f g h i j''"
  by code_simp

text \<open>
  C6, amended. At the partial tier (30 percent), for every text: the word-based
  truncation returns the first \<open>max 1 \<lfloor>n * 0.3\<rfloor>\<close> words of the text joined by single
  spaces, where \<open>n\<close> is the number of words of the text as \<^verbatim>\<open>split(/\s+/)\<close> counts them,
  followed by nothing or by the ellipsis marker; splitting that output again gives
  exactly these words, so its word count is \<open>max 1 \<lfloor>n * 0.3\<rfloor>\<close>. The character-based
  truncation returns the trimmed form of the first \<open>c\<close> characters of the text, for a cut
  point \<open>c\<close> that is at most two past 30 percent of the length and is at the start of
  the text, before a space, or just after a sentence ending; the output is no longer
  than the text; it is a prefix of the text with its leading white space removed, and
  hence of the text itself when that does not start with white space.
\<close>

theorem truncation_at_partial_tier:
  "(\<exists>ell \<in> {[], ''...''}.
      truncateToPercentage t 30
        = join_sp (take (max 1 (floorPercent (length (split_ws t)) 30)) (split_ws t)) @ ell)
   \<and> split_ws (join_sp (take (max 1 (floorPercent (length (split_ws t)) 30)) (split_ws t)))
        = take (max 1 (floorPercent (length (split_ws t)) 30)) (split_ws t)
   \<and> length (take (max 1 (floorPercent (length (split_ws t)) 30)) (split_ws t))
        = max 1 (floorPercent (length (split_ws t)) 30)
   \<and> (\<exists>c. truncateToPercentage_client t 30 = trim (take c t)
          \<and> c \<le> length t \<and> c \<le> floorPercent (length t) 30 + 2
          \<and> (c = 0 \<or> charAt t c = Some CHR '' ''
              \<or> (2 \<le> c \<and> substring t (c - 2) c \<in> set sentenceEndings)))
   \<and> length (truncateToPercentage_client t 30) \<le> length t
   \<and> prefix (truncateToPercentage_client t 30) (dropWhile isSpace t)
   \<and> (t = [] \<or> \<not> isSpace (hd t) \<longrightarrow> prefix (truncateToPercentage_client t 30) t)"
proof -
  let ?k = "max 1 (floorPercent (length (split_ws t)) 30)"
  let ?c = "cutPointFor t (floorPercent (length t) 30)"
  have a: "\<exists>ell \<in> {[], ''...''}.
      truncateToPercentage t 30 = join_sp (take ?k (split_ws t)) @ ell"
    by (simp add: truncateToPercentage_def Let_def)
  have b: "split_ws (join_sp (take ?k (split_ws t))) = take ?k (split_ws t)"
    by (rule truncated_words)
  have "floorPercent (length (split_ws t)) 30 \<le> length (split_ws t)"
    by (rule floorPercent_30_le)
  moreover have "1 \<le> length (split_ws t)"
    using split_ws_nonempty [of t] by (simp add: Suc_le_eq)
  ultimately have c: "length (take ?k (split_ws t)) = ?k" by simp
  have out: "truncateToPercentage_client t 30 = trim (take ?c t)"
    by (simp add: truncateToPercentage_client_def substring_def)
  have cut: "?c \<le> length t \<and> ?c \<le> floorPercent (length t) 30 + 2
      \<and> (?c = 0 \<or> charAt t ?c = Some CHR '' ''
          \<or> (2 \<le> ?c \<and> substring t (?c - 2) ?c \<in> set sentenceEndings))"
    by (rule cutPointFor_result [OF floorPercent_30_le])
  have pre: "prefix (truncateToPercentage_client t 30) (dropWhile isSpace t)"
    unfolding out by (rule prefix_trim_take)
  then have "length (truncateToPercentage_client t 30) \<le> length (dropWhile isSpace t)"
    by (rule prefix_length_le)
  also have "\<dots> \<le> length t" by (rule length_dropWhile_le)
  finally have len: "length (truncateToPercentage_client t 30) \<le> length t" .
  have own: "t = [] \<or> \<not> isSpace (hd t) \<longrightarrow> prefix (truncateToPercentage_client t 30) t"
  proof
    assume "t = [] \<or> \<not> isSpace (hd t)"
    then have "dropWhile isSpace t = t" by (cases t) auto
    with pre show "prefix (truncateToPercentage_client t 30) t" by simp
  qed
  from a b c out cut pre len own show ?thesis by blast
qed

theorem truncation_at_partial_tier_witness:
  "truncateToPercentage ''one two three four five six seven eight nine ten'' 30
     = ''one two three...''
   \<and> split_ws ''one two three'' = [''one'', ''two'', ''three'']
   \<and> truncateToPercentage_client ''Hello there. This is a long sentence that goes on'' 30
     = ''Hello there.''
   \<and> prefix (truncateToPercentage_client
        ''Hello there. This is a long sentence that goes on'' 30)
        ''Hello there. This is a long sentence that goes on''"
proof -
  have w: "truncateToPercentage ''one two three four five six seven eight nine ten'' 30
      = ''one two three...''"
    by code_simp
  have s: "split_ws ''one two three'' = [''one'', ''two'', ''three'']"
    by code_simp
  have c: "truncateToPercentage_client
      ''Hello there. This is a long sentence that goes on'' 30 = ''Hello there.''"
    by code_simp
  have h: "''Hello there. This is a long sentence that goes on'' = []
      \<or> \<not> isSpace (hd ''Hello there. This is a long sentence that goes on'')"
    by (simp add: isSpace_def)
  from truncation_at_partial_tier
    [of "''Hello there. This is a long sentence that goes on''"] h
  have "prefix (truncateToPercentage_client
      ''Hello there. This is a long sentence that goes on'' 30)
      ''Hello there. This is a long sentence that goes on''"
    by blast
  with w s c show ?thesis by simp
qed

section \<open>The stream parser skips a malformed line\<close>

lemma split_nl_nonempty [simp]: "split_nl t \<noteq> []"
  by (induction t) (auto split: list.splits)

lemma split_nl_Cons:
  "split_nl (c # cs) =
     (if c = CHR 0x0A then [] # split_nl cs
      else (c # hd (split_nl cs)) # tl (split_nl cs))"
  by (cases "split_nl cs") simp_all

lemma split_nl_pieces: "w \<in> set (split_nl t) \<Longrightarrow> CHR 0x0A \<notin> set w"
proof (induction t arbitrary: w)
  case Nil
  then show ?case by simp
next
  case (Cons c cs)
  show ?case
  proof (cases "c = CHR 0x0A")
    case True
    with Cons show ?thesis by auto
  next
    case False
    obtain v vs where v: "split_nl cs = v # vs" by (cases "split_nl cs") auto
    with Cons.prems False have "w = c # v \<or> w \<in> set vs" by simp
    with Cons.IH [of v] Cons.IH [of w] v False show ?thesis by auto
  qed
qed

lemma split_nl_no_newline: "CHR 0x0A \<notin> set l \<Longrightarrow> split_nl l = [l]"
  by (induction l) auto

lemma split_nl_line: "CHR 0x0A \<notin> set l \<Longrightarrow> split_nl (l @ CHR 0x0A # r) = l # split_nl r"
  by (induction l) auto

lemma split_nl_lines:
  "\<forall>l \<in> set ls. CHR 0x0A \<notin> set l \<Longrightarrow>
   split_nl (concat (map (\<lambda>l. l @ [CHR 0x0A]) ls)) = ls @ [[]]"
  by (induction ls) (simp_all add: split_nl_line)

lemma split_nl_append:
  "split_nl (a @ b) = butlast (split_nl a) @ split_nl (last (split_nl a) @ b)"
proof (induction a)
  case Nil
  then show ?case by simp
next
  case (Cons c a)
  obtain w ws where w: "split_nl a = w # ws" by (cases "split_nl a") auto
  show ?case
  proof (cases "c = CHR 0x0A")
    case True
    then show ?thesis using Cons by simp
  next
    case False
    show ?thesis
    proof (cases "ws = []")
      case True
      with w False Cons show ?thesis by simp
    next
      case ne: False
      with w False Cons show ?thesis by simp
    qed
  qed
qed

lemma processLines_append:
  "processLines parse p (xs @ ys) =
     (case processLines parse p xs of
        (a, True) \<Rightarrow> (a, True)
      | (a, False) \<Rightarrow> (case processLines parse p ys of (b, d) \<Rightarrow> (a @ b, d)))"
  by (induction xs) (auto split: prod.splits bool.splits)

lemma readLoop_lines:
  "CHR 0x0A \<notin> set buffer \<Longrightarrow>
   readLoop parse p buffer cs
     = fst (processLines parse p (butlast (split_nl (buffer @ concat cs))))"
proof (induction cs arbitrary: buffer)
  case Nil
  then show ?case by (simp add: split_nl_no_newline)
next
  case (Cons c cs)
  let ?lines = "split_nl (buffer @ c)"
  have last: "CHR 0x0A \<notin> set (last ?lines)"
    by (rule split_nl_pieces [of _ "buffer @ c"]) simp
  have "split_nl (buffer @ concat (c # cs))
      = butlast ?lines @ split_nl (last ?lines @ concat cs)"
    using split_nl_append [of "buffer @ c" "concat cs"] by simp
  then have all: "butlast (split_nl (buffer @ concat (c # cs)))
      = butlast ?lines @ butlast (split_nl (last ?lines @ concat cs))"
    by (simp add: butlast_append)
  show ?case
    unfolding all processLines_append
    using Cons.IH [OF last]
    by (simp add: Let_def split: prod.splits bool.splits)
qed

lemma processLine_other: "\<not> prefix ''data: '' l \<Longrightarrow> processLine parse p l = ([], False)"
  by (simp add: processLine_def)

lemma processLines_filter:
  "processLines parse p ls = processLines parse p (filter (prefix ''data: '') ls)"
  by (induction ls) (simp_all add: processLine_other)

lemma drop_data_prefix: "drop 6 (''data: '' @ d) = d"
  by simp

lemma processLine_content:
  "trim d \<noteq> ''[DONE]'' \<Longrightarrow> parse (trim d) = Some j \<Longrightarrow>
   extractContentFromResponse j p = Inr c \<Longrightarrow> truthy c \<Longrightarrow>
   processLine parse p (''data: '' @ d) = ([c], False)"
  unfolding processLine_def drop_data_prefix by (simp add: Let_def)

lemma processLine_malformed:
  "trim d \<noteq> ''[DONE]'' \<Longrightarrow> parse (trim d) = None \<Longrightarrow>
   processLine parse p (''data: '' @ d) = ([], False)"
  unfolding processLine_def drop_data_prefix by (simp add: Let_def)

text \<open>
  C8. A response body is a sequence of lines, each ended by a line feed, that reaches
  the parser cut into network chunks at arbitrary places. When its \<^verbatim>\<open>data:\<close> lines are
  a line with content, a line that \<^verbatim>\<open>JSON.parse\<close> rejects, and a second line with
  content, the parser yields exactly the two increments, in that order. (The parser
  returns its increments as a value: the exception of the malformed line is caught
  inside the loop and nothing is thrown.)
\<close>

theorem streamResponse_skips_malformed_line:
  assumes "concat networkChunks = concat (map (\<lambda>l. l @ [CHR 0x0A]) lines)"
    and "\<forall>l \<in> set lines. CHR 0x0A \<notin> set l"
    and "filter (prefix ''data: '') lines = [''data: '' @ d1, ''data: '' @ bad, ''data: '' @ d2]"
    and "trim d1 \<noteq> ''[DONE]''" and "parse (trim d1) = Some j1"
    and "extractContentFromResponse j1 p = Inr c1" and "truthy c1"
    and "trim bad \<noteq> ''[DONE]''" and "parse (trim bad) = None"
    and "trim d2 \<noteq> ''[DONE]''" and "parse (trim d2) = Some j2"
    and "extractContentFromResponse j2 p = Inr c2" and "truthy c2"
  shows "streamResponse parse p networkChunks = [c1, c2]"
proof -
  have "streamResponse parse p networkChunks
      = fst (processLines parse p (butlast (split_nl (concat networkChunks))))"
    using readLoop_lines [of "[]" parse p networkChunks] by (simp add: streamResponse_def)
  also have "butlast (split_nl (concat networkChunks)) = lines"
    unfolding assms(1) split_nl_lines [OF assms(2)] by simp
  also have "processLines parse p lines
      = processLines parse p [''data: '' @ d1, ''data: '' @ bad, ''data: '' @ d2]"
    using processLines_filter [of parse p lines] by (simp only: assms(3))
  also have "\<dots> = ([c1, c2], False)"
    using processLine_content [of d1 parse j1 p c1, OF assms(4-7)]
      processLine_malformed [of bad parse p, OF assms(8,9)]
      processLine_content [of d2 parse j2 p c2, OF assms(10-13)]
    by (simp del: append.simps)
  finally show ?thesis by simp
qed


theorem streamResponse_skips_malformed_line_witness:
  "streamResponse exampleParse Zhi1 [take 20 exampleBody, drop 20 exampleBody]
     = [JStr ''Hello'', JStr '' world'']"
proof -
  let ?d1 = "drop 6 (exampleLines ! 0)"
  let ?bad = "drop 6 (exampleLines ! 2)"
  let ?d2 = "drop 6 (exampleLines ! 4)"
  let ?j1 = "JObj [(''choices'', JArr [JObj [(''delta'', JObj [(''content'', JStr ''Hello'')])]])]"
  let ?j2 = "JObj [(''choices'', JArr [JObj [(''delta'', JObj [(''content'', JStr '' world'')])]])]"
  have body: "concat [take 20 exampleBody, drop 20 exampleBody]
      = concat (map (\<lambda>l. l @ [CHR 0x0A]) exampleLines)"
    by (simp add: exampleBody_def)
  have nl: "\<forall>l \<in> set exampleLines. CHR 0x0A \<notin> set l"
    by code_simp
  have dat: "filter (prefix ''data: '') exampleLines
      = [''data: '' @ ?d1, ''data: '' @ ?bad, ''data: '' @ ?d2]"
    by code_simp
  have d1: "trim ?d1 \<noteq> ''[DONE]''" "exampleParse (trim ?d1) = Some ?j1"
    by code_simp+
  have bad: "trim ?bad \<noteq> ''[DONE]''" "exampleParse (trim ?bad) = None"
    by code_simp+
  have d2: "trim ?d2 \<noteq> ''[DONE]''" "exampleParse (trim ?d2) = Some ?j2"
    by code_simp+
  have c1: "extractContentFromResponse ?j1 Zhi1 = Inr (JStr ''Hello'')" "truthy (JStr ''Hello'')"
    by code_simp+
  have c2: "extractContentFromResponse ?j2 Zhi1 = Inr (JStr '' world'')"
      "truthy (JStr '' world'')"
    by code_simp+
  show ?thesis
    by (rule streamResponse_skips_malformed_line
        [OF body nl dat d1 c1 bad d2 c2])
qed

section \<open>The phases of a run\<close>

subsection \<open>What each phase returns and what it leaves alone\<close>

lemma summaryChunks_result:
  "summaryChunks env j full cs (acc, h) s = ((r, h'), s') \<Longrightarrow>
   r = acc @ concat cs \<and> h' = (h \<or> cs \<noteq> [])
   \<and> analyses s' = analyses s \<and> users s' = users s"
proof (induction cs arbitrary: acc h s)
  case Nil
  then show ?case by simp
next
  case (Cons c cs)
  let ?s2 = "broadcastToStream j
      (EvSummary (if full then acc @ c else truncateToPercentage (acc @ c) 30)) (await env s)"
  from Cons.prems have "summaryChunks env j full cs (acc @ c, True) ?s2 = ((r, h'), s')"
    by (simp add: Let_def)
  from Cons.IH [OF this] show ?case by simp
qed

lemma streamSummary_result:
  assumes "streamSummary env j full out s = (r, s')"
  shows "analyses s' = analyses s \<and> users s' = users s
       \<and> (\<forall>summary. r = Inr summary \<longrightarrow> summary = concat (chunks out))"
proof -
  obtain x h s1 where sc: "summaryChunks env j full (chunks out) ([], False) s = ((x, h), s1)"
    by (metis surj_pair)
  from summaryChunks_result [OF sc] assms sc show ?thesis
    by (auto simp: streamSummary_def Let_def split: option.splits if_splits)
qed

lemma batchChunks_result:
  "batchChunks env j full n cs (acc, h) s = ((r, h'), s') \<Longrightarrow>
   r = acc @ concat cs \<and> h' = (h \<or> cs \<noteq> [])
   \<and> analyses s' = analyses s \<and> users s' = users s"
proof (induction cs arbitrary: acc h s)
  case Nil
  then show ?case by simp
next
  case (Cons c cs)
  let ?s2 = "broadcastToStream j
      (EvRawStream n (if full then acc @ c else truncateToPercentage (acc @ c) 30))
      (await env s)"
  from Cons.prems have "batchChunks env j full n cs (acc @ c, True) ?s2 = ((r, h'), s')"
    by (simp add: Let_def)
  from Cons.IH [OF this] show ?case by simp
qed

lemma processBatchWith_result:
  assumes "processBatchWith L l env j n full out s = (r, s')"
  shows "analyses s' = analyses s \<and> users s' = users s
       \<and> (\<forall>x. r = Inr x \<longrightarrow> x = concat (chunks out))"
proof -
  obtain x h s1 where bc: "batchChunks env j full n (chunks out) ([], False) s = ((x, h), s1)"
    by (metis surj_pair)
  from batchChunks_result [OF bc] assms bc show ?thesis
    by (auto simp: processBatchWith_def Let_def split: option.splits if_splits)
qed

lemma delayLoop_frame [simp]:
  "analyses (delayLoop env j steps step k s) = analyses s"
  "users (delayLoop env j steps step k s) = users s"
  by (induction k arbitrary: step s; simp)+

lemma streamDelay_frame [simp]:
  "analyses (streamDelay env j ms s) = analyses s"
  "users (streamDelay env j ms s) = users s"
  by (simp_all add: streamDelay_def Let_def)

lemma batchLoop_result:
  "batchLoop silent micro env llm j full bs i acc s = (r, s') \<Longrightarrow>
   analyses s' = analyses s \<and> users s' = users s
   \<and> (\<forall>rs. r = Inr (Some rs) \<longrightarrow>
         rs = acc @ map (\<lambda>n. concat (chunks (llm n))) [Suc i ..< Suc i + length bs])"
proof (induction bs arbitrary: i acc s)
  case Nil
  then show ?case by auto
next
  case (Cons b bs)
  show ?case
  proof (cases "streamIsActive j s")
    case False
    with Cons.prems show ?thesis by (auto split: if_splits)
  next
    case True
    obtain r1 s1 where pb: "(if micro then processMicroBatch else processBatch)
        env j (i + 1) full (llm (i + 1)) s = (r1, s1)"
      by (metis surj_pair)
    then have "processBatchWith (if micro then ''Micro batch'' else ''Batch'')
        (if micro then ''micro batch'' else ''batch'') env j (i + 1) full (llm (i + 1)) s
        = (r1, s1)"
      by (simp add: processBatch_def processMicroBatch_def split: if_splits)
    from processBatchWith_result [OF this]
    have f1: "analyses s1 = analyses s" "users s1 = users s"
      and r1: "\<And>x. r1 = Inr x \<Longrightarrow> x = concat (chunks (llm (i + 1)))"
      by auto
    show ?thesis
    proof (cases r1)
      case (Inl e)
      with Cons.prems True pb f1 show ?thesis by (auto simp: Let_def)
    next
      case (Inr x)
      show ?thesis
      proof (cases "streamIsActive j s1")
        case False
        with Cons.prems True pb f1 Inr show ?thesis
          by (auto simp: Let_def split: if_splits)
      next
        case act: True
        let ?s2 = "if bs \<noteq> [] then streamDelay env j 10000 s1 else s1"
        from Cons.prems True pb Inr act
        have rec: "batchLoop silent micro env llm j full bs (i + 1) (acc @ [x]) ?s2 = (r, s')"
          by (simp add: Let_def)
        have f2: "analyses ?s2 = analyses s" "users ?s2 = users s"
          using f1 by simp_all
        have up: "[Suc i ..< Suc i + length (b # bs)]
            = Suc i # [Suc (i + 1) ..< Suc (i + 1) + length bs]"
          by (simp add: upt_rec)
        from Cons.IH [OF rec] f2 r1 [OF Inr] show ?thesis
          unfolding up by auto
      qed
    qed
  qed
qed

lemma batchLoop_stopped:
  "\<not> streamIsActive j s \<Longrightarrow> bs \<noteq> [] \<Longrightarrow>
   batchLoop silent micro env llm j full bs i acc s
     = (if silent then Inr None else Inl ''Analysis stopped by user'', s)"
  by (cases bs) simp_all

lemma createBatches_5_total:
  "\<exists>bs. createBatches qs 5 = Some bs \<and> length bs = (length qs + 4) div 5"
proof -
  obtain bs where bs: "createBatches_loop qs 5 0 [] = Some bs"
    using createBatches_loop_returns [of 5 qs 0 "[]"] by auto
  with createBatches_loop_length [OF _ bs] show ?thesis
    by (simp add: createBatches_def)
qed

lemma updateAnalysisResults_analyses:
  "analyses s j = Some a \<Longrightarrow>
   analyses (updateAnalysisResults j r s) = (analyses s)(j \<mapsto> a\<lparr>results := Some r\<rparr>)"
  by (simp add: updateAnalysisResults_def)

lemma updateAnalysisStatus_analyses:
  "analyses s j = Some a \<Longrightarrow>
   analyses (updateAnalysisStatus j st s) = (analyses s)(j \<mapsto> a\<lparr>status := st\<rparr>)"
  by (simp add: updateAnalysisStatus_def)

lemma processKindAnalysis_result:
  assumes "processKindAnalysis silent micro env llm questions j kind full s = (r, s')"
    and "analyses s j = Some a"
  shows "users s' = users s
       \<and> (case r of
            Inl e \<Rightarrow> analyses s' = analyses s
          | Inr u \<Rightarrow>
              analyses s' = analyses s
              \<or> analyses s' = (analyses s)(j \<mapsto> a\<lparr>results := Some
                   (FinalResults (concat (chunks (llm 0)))
                      (map (\<lambda>n. concat (chunks (llm n)))
                         [1 ..< Suc ((length questions + 4) div 5)])
                      questions kind)\<rparr>))"
proof -
  obtain r1 s1 where ss: "streamSummary env j full (llm 0) s = (r1, s1)"
    by (metis surj_pair)
  from streamSummary_result [OF ss]
  have f1: "analyses s1 = analyses s" "users s1 = users s"
    and r1: "\<And>x. r1 = Inr x \<Longrightarrow> x = concat (chunks (llm 0))"
    by auto
  show ?thesis
  proof (cases r1)
    case (Inl e)
    with assms ss f1 show ?thesis by (auto simp: processKindAnalysis_def)
  next
    case (Inr summary)
    obtain bs where bs: "createBatches questions 5 = Some bs"
        "length bs = (length questions + 4) div 5"
      using createBatches_5_total by blast
    obtain r2 s2 where bl: "batchLoop silent micro env llm j full bs 0 [] s1 = (r2, s2)"
      by (metis surj_pair)
    from batchLoop_result [OF bl] f1
    have f2: "analyses s2 = analyses s" "users s2 = users s"
      and r2: "\<And>rs. r2 = Inr (Some rs) \<Longrightarrow>
          rs = map (\<lambda>n. concat (chunks (llm n))) [1 ..< Suc (length bs)]"
      by auto
    from assms(1) ss Inr bs(1) bl
    have res: "(r, s') =
        (case r2 of
           Inl e \<Rightarrow> (Inl e, s2)
         | Inr None \<Rightarrow> (Inr (), s2)
         | Inr (Some batchResults) \<Rightarrow>
             (Inr (), await env (updateAnalysisResults j
                (FinalResults summary batchResults questions kind) s2)))"
      by (simp add: processKindAnalysis_def Let_def)
    show ?thesis
    proof (cases r2)
      case (Inl e)
      with res f2 show ?thesis by simp
    next
      case (Inr o2)
      show ?thesis
      proof (cases o2)
        case None
        with res Inr f2 show ?thesis by simp
      next
        case (Some rs)
        from assms(2) f2 have a2: "analyses s2 j = Some a" by simp
        from res Inr Some r2 [of rs] r1 [OF \<open>r1 = Inr summary\<close>] bs(2) f2
          updateAnalysisResults_analyses [OF a2]
        show ?thesis by simp
      qed
    qed
  qed
qed

subsection \<open>The whole run\<close>

lemma dispatchAnalysis_result:
  assumes "dispatchAnalysis env llm qs j kind full s = (r, s')"
    and "analyses s j = Some a"
  shows "users s' = users s
       \<and> (case r of
            Inl e \<Rightarrow> analyses s' = analyses s
          | Inr u \<Rightarrow>
              analyses s' = analyses s
              \<or> analyses s' = (analyses s)(j \<mapsto> a\<lparr>results := Some
                   (FinalResults (concat (chunks (llm 0)))
                      (map (\<lambda>n. concat (chunks (llm n)))
                         [1 ..< Suc ((length (qs kind) + 4) div 5)])
                      (qs kind) kind)\<rparr>))"
proof -
  consider (kind) silent micro where
      "processKindAnalysis silent micro env llm (qs kind) j kind full s = (r, s')"
    | (other) "r = Inl (''Analysis type '' @ kind @ '' not implemented'')" "s' = s"
    using assms(1) unfolding dispatchAnalysis_def by (auto split: if_splits)
  then show ?thesis
  proof cases
    case kind
    from processKindAnalysis_result [OF kind assms(2)] show ?thesis .
  next
    case other
    then show ?thesis by simp
  qed
qed

lemma resolveAccess_result:
  assumes "resolveAccess env a s = (r, s')"
  shows "analyses s' = analyses s \<and> (\<exists>b. r = Inr b)"
proof (cases "userId a")
  case None
  with assms show ?thesis by (auto simp: resolveAccess_def)
next
  case (Some uid)
  show ?thesis
  proof (cases "uid = 0")
    case True
    with assms Some show ?thesis by (auto simp: resolveAccess_def)
  next
    case False
    show ?thesis
    proof (cases "checkUserCredits uid (getRequiredCredits (type a)) (users s)")
      case True
      then obtain user where "users s uid = Some user"
        by (auto simp: checkUserCredits_def split: option.splits)
      then have "\<exists>us. consumeUserCredits uid (getRequiredCredits (type a)) (users s) = Inr us"
        by (simp add: consumeUserCredits_def)
      then obtain us where "consumeUserCredits uid (getRequiredCredits (type a)) (users s) = Inr us"
        by blast
      with assms Some False True show ?thesis
        by (auto simp: resolveAccess_def Let_def)
    next
      case no: False
      with assms Some False show ?thesis
        by (auto simp: resolveAccess_def Let_def)
    qed
  qed
qed

lemma verifyAndComplete_result:
  assumes "verifyAndComplete env j s = (r, s')" and "analyses s j = Some a"
  shows "(results a = None \<longrightarrow>
            r = Inl ''Analysis processing completed but results were not saved''
            \<and> analyses s' = analyses s)
       \<and> (results a \<noteq> None \<longrightarrow>
            r = Inr () \<and> analyses s' = (analyses s)(j \<mapsto> a\<lparr>status := ''completed''\<rparr>))"
proof -
  have a1: "analyses (await env s) j = Some a" using assms(2) by simp
  have a2: "analyses (updateAnalysisStatus j ''completed'' (await env s))
      = (analyses s)(j \<mapsto> a\<lparr>status := ''completed''\<rparr>)"
    using updateAnalysisStatus_analyses [OF a1, of "''completed''"] by simp
  from a1 a2 show ?thesis
    using assms(1) by (auto simp: verifyAndComplete_def Let_def split: option.splits)
qed

lemma recordFailure_analyses:
  assumes "analyses s j = Some a"
  shows "analyses (recordFailure env j t e s)
       = (analyses s)(j \<mapsto> a\<lparr>status := ''error'', results := Some (ErrorResults e t)\<rparr>)"
proof -
  let ?s1 = "await env (updateAnalysisStatus j ''error'' s)"
  have a1: "analyses ?s1 = (analyses s)(j \<mapsto> a\<lparr>status := ''error''\<rparr>)"
    using updateAnalysisStatus_analyses [OF assms] by simp
  then have "analyses ?s1 j = Some (a\<lparr>status := ''error''\<rparr>)" by simp
  from updateAnalysisResults_analyses [OF this] a1 show ?thesis
    by (simp add: recordFailure_def)
qed

lemma processAnalysis_outcome:
  assumes "analyses s j = Some job" and "processAnalysis env llm qs j s = (r, s')"
  shows "(\<exists>e. r = Inl e
          \<and> analyses s' j = Some (job\<lparr>status := ''error'',
                                     results := Some (ErrorResults e (type job))\<rparr>))
       \<or> (r = Inr ()
          \<and> (\<exists>res. analyses s' j = Some (job\<lparr>status := ''completed'', results := Some res\<rparr>)
                \<and> (results job = Some res
                    \<or> res = FinalResults (concat (chunks (llm 0)))
                        (map (\<lambda>n. concat (chunks (llm n)))
                           [1 ..< Suc ((length (qs (type job)) + 4) div 5)])
                        (qs (type job)) (type job))))"
proof -
  let ?s1 = "await env s"
  define F where "F = FinalResults (concat (chunks (llm 0)))
      (map (\<lambda>n. concat (chunks (llm n))) [1 ..< Suc ((length (qs (type job)) + 4) div 5)])
      (qs (type job)) (type job)"
  have a1: "analyses ?s1 j = Some job" using assms(1) by simp
  obtain r2 s2 where ra: "resolveAccess env job ?s1 = (r2, s2)" by (metis surj_pair)
  from resolveAccess_result [OF ra] obtain full where
    r2: "r2 = Inr full" and f2: "analyses s2 = analyses s" by auto
  let ?s3 = "await env (updateAnalysisStatus j ''streaming'' s2)"
  let ?job3 = "job\<lparr>status := ''streaming''\<rparr>"
  have a2: "analyses s2 j = Some job" using f2 assms(1) by simp
  have f3: "analyses ?s3 = (analyses s)(j \<mapsto> ?job3)"
    using updateAnalysisStatus_analyses [OF a2] f2 by simp
  then have a3: "analyses ?s3 j = Some ?job3" by simp
  obtain r4 s4 where da: "dispatchAnalysis env llm qs j (type job) full ?s3 = (r4, s4)"
    by (metis surj_pair)
  note d = dispatchAnalysis_result [OF da a3, folded F_def]
  show ?thesis
  proof (cases r4)
    case (Inl e)
    with d have "analyses s4 j = Some ?job3" using a3 by simp
    from recordFailure_analyses [OF this, of env "type job" e]
    have "analyses (recordFailure env j (type job) e s4) j
        = Some (job\<lparr>status := ''error'', results := Some (ErrorResults e (type job))\<rparr>)"
      by simp
    moreover from assms(2) a1 ra r2 da Inl
    have "r = Inl e" "s' = recordFailure env j (type job) e s4"
      by (simp_all add: processAnalysis_def Let_def)
    ultimately show ?thesis by simp
  next
    case (Inr u)
    with d have "analyses s4 = analyses ?s3
        \<or> analyses s4 = (analyses ?s3)(j \<mapsto> ?job3\<lparr>results := Some F\<rparr>)"
      by simp
    then obtain job4 where a4: "analyses s4 j = Some job4"
        and j4: "job4 = ?job3 \<or> job4 = ?job3\<lparr>results := Some F\<rparr>"
      using a3 by auto
    obtain r5 s5 where vc: "verifyAndComplete env j s4 = (r5, s5)" by (metis surj_pair)
    note v = verifyAndComplete_result [OF vc a4]
    from assms(2) a1 ra r2 da Inr vc
    have res: "(r, s') = (case r5 of Inl e \<Rightarrow> (Inl e, recordFailure env j (type job) e s5)
                          | Inr v \<Rightarrow> (Inr (), s5))"
      by (simp add: processAnalysis_def Let_def)
    have "(\<exists>e. r = Inl e
          \<and> analyses s' j = Some (job\<lparr>status := ''error'',
                                     results := Some (ErrorResults e (type job))\<rparr>))
       \<or> (r = Inr ()
          \<and> (\<exists>res. analyses s' j = Some (job\<lparr>status := ''completed'', results := Some res\<rparr>)
                \<and> (results job = Some res \<or> res = F)))"
    proof (cases "results job4")
      case None
      with v have r5: "r5 = Inl ''Analysis processing completed but results were not saved''"
          and "analyses s5 = analyses s4"
        by simp_all
      with a4 have "analyses s5 j = Some job4" by simp
      from recordFailure_analyses [OF this, of env "type job"] j4 res r5
      show ?thesis by auto
    next
      case (Some res4)
      with v have r5: "r5 = Inr ()"
          and "analyses s5 = (analyses s4)(j \<mapsto> job4\<lparr>status := ''completed''\<rparr>)"
        by simp_all
      then have a5: "analyses s5 j = Some (job4\<lparr>status := ''completed''\<rparr>)" by simp
      from res r5 have rs: "r = Inr ()" "s' = s5" by simp_all
      from j4 show ?thesis
      proof
        assume old: "job4 = ?job3"
        with Some have "results job = Some res4" by simp
        then have "job\<lparr>results := Some res4\<rparr> = job" by (cases job) simp
        then have "job4\<lparr>status := ''completed''\<rparr>
            = job\<lparr>status := ''completed'', results := Some res4\<rparr>"
          unfolding old by (cases job) simp
        with a5 rs \<open>results job = Some res4\<close> show ?thesis by auto
      next
        assume new: "job4 = ?job3\<lparr>results := Some F\<rparr>"
        then have "job4\<lparr>status := ''completed''\<rparr>
            = job\<lparr>status := ''completed'', results := Some F\<rparr>"
          by simp
        with a5 rs show ?thesis by auto
      qed
    qed
    then show ?thesis unfolding F_def .
  qed
qed

section \<open>Persistence\<close>

lemma example_job [simp]:
  "analyses (exampleState kind user) ''job'' = Some (exampleJob kind)"
  "results (exampleJob kind) = None"
  "type (exampleJob kind) = kind"
  by (simp_all add: exampleState_def exampleJob_def)

text \<open>
  C3. A run on a job without results that returns normally has persisted a results
  object whose summary is the concatenation of all increments of the summary call and
  whose \<open>i\<close>-th batch entry is the concatenation of all increments of the call for batch
  \<open>i + 1\<close>, one entry per batch. The state \<open>s\<close> is arbitrary, so this holds whichever
  tier the credit gate resolves to; the truncated snapshots only go to the subscribers.
\<close>

theorem persisted_results_untruncated:
  assumes "analyses s j = Some job" and "results job = None"
    and "fst (processAnalysis env llm qs j s) = Inr ()"
  shows "\<exists>job' summary batches.
           analyses (snd (processAnalysis env llm qs j s)) j = Some job'
           \<and> results job' = Some (FinalResults summary batches (qs (type job)) (type job))
           \<and> summary = concat (chunks (llm 0))
           \<and> length batches = (length (qs (type job)) + 4) div 5
           \<and> (\<forall>i < length batches. batches ! i = concat (chunks (llm (i + 1))))"
proof -
  obtain r s' where run: "processAnalysis env llm qs j s = (r, s')" by (metis surj_pair)
  with assms(3) have r: "r = Inr ()" by simp
  let ?bs = "map (\<lambda>n. concat (chunks (llm n))) [1 ..< Suc ((length (qs (type job)) + 4) div 5)]"
  from processAnalysis_outcome [OF assms(1) run] r assms(2)
  have "analyses s' j = Some (job\<lparr>status := ''completed'', results := Some
      (FinalResults (concat (chunks (llm 0))) ?bs (qs (type job)) (type job))\<rparr>)"
    by auto
  moreover have "length ?bs = (length (qs (type job)) + 4) div 5" by simp
  moreover have "\<forall>i < length ?bs. ?bs ! i = concat (chunks (llm (i + 1)))"
    by (simp del: upt_Suc)
  ultimately show ?thesis unfolding run by (simp del: upt_Suc)
qed

theorem persisted_results_untruncated_witness:
  "observed 7 (snd (processAnalysis quiet exampleLlm exampleQuestions ''job''
       (exampleState ''psychological'' (alice 0))))
     = [EvSummary ''Hello'', EvSummary ''Hello...'', EvRawStream 1 ''Answer...'',
        EvRawStream 1 ''Answer...'', EvBatchComplete 1 ''Answer...'', EvComplete]
   \<and> (\<exists>job' summary batches.
         analyses (snd (processAnalysis quiet exampleLlm exampleQuestions ''job''
           (exampleState ''psychological'' (alice 0)))) ''job'' = Some job'
         \<and> results job' = Some (FinalResults summary batches
              (exampleQuestions ''psychological'') ''psychological'')
         \<and> summary = ''Hello world''
         \<and> length batches = 1
         \<and> (\<forall>i < length batches. batches ! i = ''Answer one.''))"
proof -
  have ok: "fst (processAnalysis quiet exampleLlm exampleQuestions ''job''
      (exampleState ''psychological'' (alice 0))) = Inr ()"
    by code_simp
  have seen: "observed 7 (snd (processAnalysis quiet exampleLlm exampleQuestions ''job''
       (exampleState ''psychological'' (alice 0))))
     = [EvSummary ''Hello'', EvSummary ''Hello...'', EvRawStream 1 ''Answer...'',
        EvRawStream 1 ''Answer...'', EvBatchComplete 1 ''Answer...'', EvComplete]"
    by code_simp
  have n: "(length (exampleQuestions ''psychological'') + 4) div 5 = 1"
    by (simp add: exampleQuestions_def)
  have c0: "concat (chunks (exampleLlm 0)) = ''Hello world''"
    and c1: "\<And>i. concat (chunks (exampleLlm (i + 1))) = ''Answer one.''"
    by (simp_all add: exampleLlm_def)
  from persisted_results_untruncated
    [OF example_job(1) example_job(2) ok, unfolded example_job n c0 c1]
  show ?thesis using seen by simp
qed

text \<open>
  C9. In every run on an existing job the status \<open>completed\<close> is written only when the
  job, read again after the kind's procedure has returned, carries results: the run
  ends with status \<open>completed\<close> exactly when it returns normally, and then the results
  are present; when it fails, the status is \<open>error\<close> and the results are the error
  descriptor. The check itself fails a job whose results are still null, without
  touching the job.
\<close>

theorem completed_only_with_results:
  assumes "analyses s j = Some job"
  shows "\<exists>job'. analyses (snd (processAnalysis env llm qs j s)) j = Some job'
           \<and> (status job' = ''completed'' \<longrightarrow>
                 results job' \<noteq> None \<and> fst (processAnalysis env llm qs j s) = Inr ())
           \<and> (fst (processAnalysis env llm qs j s) = Inr () \<longrightarrow> status job' = ''completed'')
           \<and> (\<forall>e. fst (processAnalysis env llm qs j s) = Inl e \<longrightarrow>
                 status job' = ''error''
                 \<and> results job' = Some (ErrorResults e (type job)))
           \<and> (\<forall>s2 a. analyses s2 j = Some a \<and> results a = None \<longrightarrow>
                 fst (verifyAndComplete env j s2)
                   = Inl ''Analysis processing completed but results were not saved''
                 \<and> analyses (snd (verifyAndComplete env j s2)) = analyses s2)"
proof -
  obtain r s' where run: "processAnalysis env llm qs j s = (r, s')" by (metis surj_pair)
  have chk: "\<forall>s2 a. analyses s2 j = Some a \<and> results a = None \<longrightarrow>
      fst (verifyAndComplete env j s2)
        = Inl ''Analysis processing completed but results were not saved''
      \<and> analyses (snd (verifyAndComplete env j s2)) = analyses s2"
  proof (intro allI impI)
    fix s2 :: state and a
    assume h: "analyses s2 j = Some a \<and> results a = None"
    obtain r2 s2' where v: "verifyAndComplete env j s2 = (r2, s2')" by (metis surj_pair)
    from verifyAndComplete_result [OF v] h show
      "fst (verifyAndComplete env j s2)
        = Inl ''Analysis processing completed but results were not saved''
      \<and> analyses (snd (verifyAndComplete env j s2)) = analyses s2"
      unfolding v by simp
  qed
  from processAnalysis_outcome [OF assms run]
  have "\<exists>job'. analyses s' j = Some job'
      \<and> (status job' = ''completed'' \<longrightarrow> results job' \<noteq> None \<and> r = Inr ())
      \<and> (r = Inr () \<longrightarrow> status job' = ''completed'')
      \<and> (\<forall>e. r = Inl e \<longrightarrow> status job' = ''error''
            \<and> results job' = Some (ErrorResults e (type job)))"
    by auto
  with chk show ?thesis unfolding run by simp
qed

theorem completed_only_with_results_witness:
  "map_option status (analyses (snd (processAnalysis quiet exampleLlm exampleQuestions ''job''
       (exampleState ''cognitive'' (alice 0)))) ''job'') = Some ''completed''
   \<and> fst (processAnalysis quiet exampleLlm exampleQuestions ''job''
       (exampleState ''cognitive'' (alice 0))) = Inr ()
   \<and> analyses (snd (processAnalysis (stopAt 4) exampleLlm exampleQuestions ''job''
       (exampleState ''cognitive'' (alice 0)))) ''job''
     = Some \<lparr>type = ''cognitive'', userId = Some 4, status = ''error'',
             results = Some (ErrorResults
               ''Analysis processing completed but results were not saved'' ''cognitive'')\<rparr>
   \<and> (\<exists>job'. analyses (snd (processAnalysis quiet exampleLlm exampleQuestions ''job''
         (exampleState ''cognitive'' (alice 0)))) ''job'' = Some job'
       \<and> status job' = ''completed'' \<and> results job' \<noteq> None)"
proof -
  have ok: "fst (processAnalysis quiet exampleLlm exampleQuestions ''job''
       (exampleState ''cognitive'' (alice 0))) = Inr ()"
    by code_simp
  have st: "map_option status (analyses (snd (processAnalysis quiet exampleLlm
       exampleQuestions ''job'' (exampleState ''cognitive'' (alice 0)))) ''job'')
       = Some ''completed''"
    by code_simp
  have stopped: "analyses (snd (processAnalysis (stopAt 4) exampleLlm exampleQuestions ''job''
       (exampleState ''cognitive'' (alice 0)))) ''job''
     = Some \<lparr>type = ''cognitive'', userId = Some 4, status = ''error'',
             results = Some (ErrorResults
               ''Analysis processing completed but results were not saved'' ''cognitive'')\<rparr>"
    by code_simp
  from completed_only_with_results
      [where s = "exampleState ''cognitive'' (alice 0)" and j = "''job''"
         and job = "exampleJob ''cognitive''" and env = quiet and llm = exampleLlm
         and qs = exampleQuestions, OF example_job(1)] ok st
  have "\<exists>job'. analyses (snd (processAnalysis quiet exampleLlm exampleQuestions ''job''
         (exampleState ''cognitive'' (alice 0)))) ''job'' = Some job'
       \<and> status job' = ''completed'' \<and> results job' \<noteq> None"
    by auto
  with ok st stopped show ?thesis by simp
qed

section \<open>A stop during a run\<close>

lemma batchEvents_frame [simp]:
  "batchEvents (await env s) = batchEvents s"
  "batchEvents (updateAnalysisStatus j st s) = batchEvents s"
  "batchEvents (updateAnalysisResults j r s) = batchEvents s"
  by (simp_all add: batchEvents_def)

lemma batchEvents_broadcast [simp]:
  "\<not> isBatchEvent e \<Longrightarrow> batchEvents (broadcastToStream j e s) = batchEvents s"
  by (simp add: batchEvents_def broadcastToStream_def split: option.splits)

lemma batchEvents_recordFailure [simp]:
  "batchEvents (recordFailure env j t e s) = batchEvents s"
  by (simp add: recordFailure_def)

lemma summaryChunks_batchEvents:
  "summaryChunks env j full cs acc s = (r, s') \<Longrightarrow> batchEvents s' = batchEvents s"
proof (induction cs arbitrary: acc s)
  case Nil
  then show ?case by simp
next
  case (Cons c cs)
  obtain x h where acc: "acc = (x, h)" by (cases acc)
  let ?s2 = "broadcastToStream j
      (EvSummary (if full then x @ c else truncateToPercentage (x @ c) 30)) (await env s)"
  from Cons.prems acc have "summaryChunks env j full cs (x @ c, True) ?s2 = (r, s')"
    by (simp add: Let_def)
  from Cons.IH [OF this] show ?case by (simp add: isBatchEvent_def)
qed

lemma streamSummary_batchEvents:
  assumes "streamSummary env j full out s = (r, s')"
  shows "batchEvents s' = batchEvents s"
proof -
  obtain x s1 where sc: "summaryChunks env j full (chunks out) ([], False) s = (x, s1)"
    by (metis surj_pair)
  from summaryChunks_batchEvents [OF sc] assms sc show ?thesis
    by (auto simp: streamSummary_def Let_def split: option.splits if_splits prod.splits)
qed

lemma resolveAccess_batchEvents:
  "resolveAccess env a s = (r, s') \<Longrightarrow> batchEvents s' = batchEvents s"
  by (auto simp: resolveAccess_def Let_def batchEvents_def
      split: option.splits if_splits sum.splits)

lemma createBatches_5_nonempty: "qs \<noteq> [] \<Longrightarrow> the (createBatches qs 5) \<noteq> []"
proof -
  assume "qs \<noteq> []"
  then have "0 < (length qs + 4) div 5" by (cases qs) simp_all
  with createBatches_5_total [of qs] show ?thesis by auto
qed

lemma dispatchAnalysis_kind:
  "kind \<in> set analysisKinds \<Longrightarrow>
   dispatchAnalysis env llm qs j kind full s
     = processKindAnalysis (kind = ''cognitive'')
         (kind \<in> {''microcognitive'', ''micropsychological'', ''micropsychopathological''})
         env llm (qs kind) j kind full s"
  by (auto simp: analysisKinds_def dispatchAnalysis_def)

lemma dispatchAnalysis_stopped:
  assumes "kind \<in> set analysisKinds"
    and "streamSummary env j full (llm 0) s = (Inr summary, s3)"
    and "\<not> streamIsActive j s3" and "qs kind \<noteq> []"
  shows "dispatchAnalysis env llm qs j kind full s
       = (if kind = ''cognitive'' then Inr () else Inl ''Analysis stopped by user'', s3)"
  unfolding dispatchAnalysis_kind [OF assms(1)] processKindAnalysis_def
  using assms(2) batchLoop_stopped [OF assms(3) createBatches_5_nonempty [OF assms(4)]]
  by (simp add: Let_def)

lemma stopped_run:
  assumes "analyses s j = Some job" and "results job = None" and "qs (type job) \<noteq> []"
    and "stoppedBeforeFirstBatch env llm j s"
  shows "\<exists>e s4. processAnalysis env llm qs j s
             = (Inl e, recordFailure env j (type job) e s4)
         \<and> e = (if type job = ''cognitive''
                then ''Analysis processing completed but results were not saved''
                else ''Analysis stopped by user'')
         \<and> analyses s4 j = Some (job\<lparr>status := ''streaming''\<rparr>)
         \<and> batchEvents s4 = batchEvents s"
proof -
  let ?s1 = "await env s"
  have a1: "analyses ?s1 j = Some job" using assms(1) by simp
  from assms(4) a1 obtain s3 where fc: "firstCheckpoint env llm j s = Some s3"
      and off: "\<not> streamIsActive j s3"
    by (auto simp: stoppedBeforeFirstBatch_def split: option.splits)
  from fc a1 have kind: "type job \<in> set analysisKinds"
    by (auto simp: firstCheckpoint_def Let_def split: if_splits)
  obtain r2 s2 where ra: "resolveAccess env job ?s1 = (r2, s2)" by (metis surj_pair)
  from resolveAccess_result [OF ra] obtain full where
    r2: "r2 = Inr full" and f2: "analyses s2 = analyses s" by auto
  let ?s3 = "await env (updateAnalysisStatus j ''streaming'' s2)"
  let ?job3 = "job\<lparr>status := ''streaming''\<rparr>"
  have a2: "analyses s2 j = Some job" using f2 assms(1) by simp
  have f3: "analyses ?s3 = (analyses s)(j \<mapsto> ?job3)"
    using updateAnalysisStatus_analyses [OF a2] f2 by simp
  from fc a1 kind ra r2 obtain summary where
    ss: "streamSummary env j full (llm 0) ?s3 = (Inr summary, s3)"
    by (auto simp: firstCheckpoint_def Let_def split: sum.splits prod.splits)
  from streamSummary_result [OF ss] f3
  have a3: "analyses s3 j = Some ?job3" by simp
  have b3: "batchEvents s3 = batchEvents s"
    using streamSummary_batchEvents [OF ss] resolveAccess_batchEvents [OF ra] by simp
  note da = dispatchAnalysis_stopped
      [where qs = qs and kind = "type job" and llm = llm, OF kind ss off assms(3)]
  show ?thesis
  proof (cases "type job = ''cognitive''")
    case True
    obtain r5 s5 where vc: "verifyAndComplete env j s3 = (r5, s5)" by (metis surj_pair)
    have s5: "s5 = await env s3"
      using vc a3 assms(2) by (simp add: verifyAndComplete_def Let_def)
    from verifyAndComplete_result [OF vc a3] assms(2)
    have r5: "r5 = Inl ''Analysis processing completed but results were not saved''"
      and "analyses s5 = analyses s3"
      by simp_all
    with a3 have a5: "analyses s5 j = Some ?job3" by simp
    have b5: "batchEvents s5 = batchEvents s" using s5 b3 by simp
    have "processAnalysis env llm qs j s
        = (Inl ''Analysis processing completed but results were not saved'',
           recordFailure env j (type job)
             ''Analysis processing completed but results were not saved'' s5)"
      using a1 ra r2 da True vc r5 by (simp add: processAnalysis_def Let_def)
    with a5 b5 True show ?thesis by auto
  next
    case False
    have "processAnalysis env llm qs j s
        = (Inl ''Analysis stopped by user'',
           recordFailure env j (type job) ''Analysis stopped by user'' s3)"
      using a1 ra r2 da False by (simp add: processAnalysis_def Let_def)
    with a3 b3 False show ?thesis by auto
  qed
qed

text \<open>
  C2, as stated, fails: a stop before batch 1 is not a silent early return. With the
  stop route called while the summary is streaming, the run of a psychological analysis
  ends with the status \<open>error\<close> and the error descriptor in the results.
\<close>

theorem stop_before_first_batch_is_an_error:
  "stoppedBeforeFirstBatch (stopAt 4) exampleLlm ''job''
     (exampleState ''psychological'' (alice 0))
   \<and> fst (processAnalysis (stopAt 4) exampleLlm exampleQuestions ''job''
       (exampleState ''psychological'' (alice 0))) = Inl ''Analysis stopped by user''
   \<and> analyses (snd (processAnalysis (stopAt 4) exampleLlm exampleQuestions ''job''
       (exampleState ''psychological'' (alice 0)))) ''job''
     = Some \<lparr>type = ''psychological'', userId = Some 4, status = ''error'',
             results = Some (ErrorResults ''Analysis stopped by user'' ''psychological'')\<rparr>"
  by code_simp

text \<open>
  C2, amended. For a run on a job without results, of a kind with at least one
  question: if the channel of the job is absent or inactive at the first batch
  checkpoint, the run emits no \<open>raw_stream\<close> and no \<open>batch_complete\<close> event, but it does
  not return silently: it fails (with \<^verbatim>\<open>Analysis stopped by user\<close>, or for the kind
  \<open>cognitive\<close> with the failure of the results check), so the status is written as
  \<open>error\<close> and the results become the error descriptor. The \<open>error\<close> event that
  \<open>startAnalysis\<close> then broadcasts is no batch event either.
\<close>

theorem stop_before_first_batch:
  assumes "analyses s j = Some job" and "results job = None" and "qs (type job) \<noteq> []"
    and "stoppedBeforeFirstBatch env llm j s"
  shows "\<exists>e. fst (processAnalysis env llm qs j s) = Inl e
           \<and> e = (if type job = ''cognitive''
                  then ''Analysis processing completed but results were not saved''
                  else ''Analysis stopped by user'')
           \<and> analyses (snd (processAnalysis env llm qs j s)) j
               = Some (job\<lparr>status := ''error'',
                            results := Some (ErrorResults e (type job))\<rparr>)
           \<and> batchEvents (snd (processAnalysis env llm qs j s)) = batchEvents s
           \<and> batchEvents (startAnalysis env llm qs j s) = batchEvents s"
proof -
  from stopped_run [where qs = qs and env = env and llm = llm, OF assms] obtain e s4 where
    run: "processAnalysis env llm qs j s = (Inl e, recordFailure env j (type job) e s4)"
    and e: "e = (if type job = ''cognitive''
                then ''Analysis processing completed but results were not saved''
                else ''Analysis stopped by user'')"
    and a4: "analyses s4 j = Some (job\<lparr>status := ''streaming''\<rparr>)"
    and b4: "batchEvents s4 = batchEvents s"
    by blast
  have "analyses (recordFailure env j (type job) e s4) j
      = Some (job\<lparr>status := ''error'', results := Some (ErrorResults e (type job))\<rparr>)"
    using recordFailure_analyses [OF a4, of env "type job" e] by simp
  moreover have "batchEvents (startAnalysis env llm qs j s) = batchEvents s"
    using b4 by (simp add: startAnalysis_def run isBatchEvent_def)
  ultimately show ?thesis using e b4 by (simp add: run)
qed

theorem stop_before_first_batch_witness:
  "\<exists>e. fst (processAnalysis (stopAt 4) exampleLlm exampleQuestions ''job''
            (exampleState ''microcognitive'' (alice 0))) = Inl e
       \<and> e = ''Analysis stopped by user''
       \<and> analyses (snd (processAnalysis (stopAt 4) exampleLlm exampleQuestions ''job''
            (exampleState ''microcognitive'' (alice 0)))) ''job''
           = Some ((exampleJob ''microcognitive'')\<lparr>status := ''error'',
                results := Some (ErrorResults e ''microcognitive'')\<rparr>)
       \<and> batchEvents (snd (processAnalysis (stopAt 4) exampleLlm exampleQuestions ''job''
            (exampleState ''microcognitive'' (alice 0)))) = []
       \<and> batchEvents (startAnalysis (stopAt 4) exampleLlm exampleQuestions ''job''
            (exampleState ''microcognitive'' (alice 0))) = []"
proof -
  have q: "exampleQuestions (type (exampleJob ''microcognitive'')) \<noteq> []"
    by (simp add: exampleQuestions_def)
  have st: "stoppedBeforeFirstBatch (stopAt 4) exampleLlm ''job''
      (exampleState ''microcognitive'' (alice 0))"
    by code_simp
  have b0: "batchEvents (exampleState ''microcognitive'' (alice 0)) = []"
    by (simp add: batchEvents_def exampleState_def)
  have k: "''microcognitive'' \<noteq> ''cognitive''" by simp
  from stop_before_first_batch
    [where s = "exampleState ''microcognitive'' (alice 0)" and j = "''job''"
       and job = "exampleJob ''microcognitive''" and qs = exampleQuestions
       and env = "stopAt 4" and llm = exampleLlm,
     OF example_job(1) example_job(2) q st]
  show ?thesis unfolding example_job b0 using k by simp
qed

section \<open>Terminal events\<close>

text \<open>
  C4. A subscriber attached for the whole run is to see exactly one of \<open>complete\<close>,
  \<open>error\<close> and \<open>stopped\<close>. When the user stops the run, callback 7, attached from the
  start, sees the first summary snapshot and then nothing: \<open>stopAnalysis\<close> drops its
  \<open>stopped\<close> event, and the \<open>error\<close> event with which the run then ends finds the
  channel removed. The job ends in the status \<open>error\<close>.
\<close>

theorem user_stop_delivers_no_terminal_event:
  "observed 7 (startAnalysis (stopAt 4) exampleLlm exampleQuestions ''job''
       (exampleState ''psychological'' (alice 0))) = [EvSummary ''Hello'']
   \<and> filter isTerminal (observed 7 (startAnalysis (stopAt 4) exampleLlm exampleQuestions
       ''job'' (exampleState ''psychological'' (alice 0)))) = []
   \<and> activeStreams (startAnalysis (stopAt 4) exampleLlm exampleQuestions ''job''
       (exampleState ''psychological'' (alice 0))) ''job'' = None
   \<and> map_option status (analyses (startAnalysis (stopAt 4) exampleLlm exampleQuestions
       ''job'' (exampleState ''psychological'' (alice 0))) ''job'') = Some ''error''"
  by code_simp

end
